theory Spec2Isabelle
  imports Main "HOL-Library.Word"
begin

unbundle bit_operations_syntax

section \<open>Machine integers\<close>

text \<open>
  The fixed-width integers of the sources are words: \<open>+\<close>, \<open>-\<close> and \<open>*\<close> wrap around,
  \<open>push_bit\<close> is \<open><<\<close>, \<open>drop_bit\<close> is \<open>>>\<close> on an unsigned value and
  \<open>signed_drop_bit\<close> is \<open>>>\<close> on a signed one. A signed 32-bit value is the same
  \<open>32 word\<close>, read through \<open>sint\<close>.
\<close>

type_synonym u8 = "8 word"
type_synonym u16 = "16 word"
type_synonym u32 = "32 word"
type_synonym u64 = "64 word"

section \<open>Schema registry (schemas.h)\<close>

datatype schema = L2Schema | L3Schema | ImbalanceSchema | VwapSchema | VoiSchema

fun COLS :: "schema \<Rightarrow> nat" where
  "COLS L2Schema = 4"
| "COLS L3Schema = 6"
| "COLS ImbalanceSchema = 2"
| "COLS VwapSchema = 2"
| "COLS VoiSchema = 3"

text \<open>\<open>Schema::col_size(i)\<close>, the element width of column \<open>i\<close> in bytes.\<close>

fun col_size :: "schema \<Rightarrow> nat \<Rightarrow> nat" where
  "col_size L2Schema i = (if i = 0 then 8 else if i = 1 then 4 else if i = 2 then 4 else 1)"
| "col_size L3Schema i = (if i \<le> 1 then 8 else if i \<le> 3 then 4 else 1)"
| "col_size ImbalanceSchema i = (if i = 0 then 4 else 8)"
| "col_size VwapSchema i = (if i = 0 then 4 else 8)"
| "col_size VoiSchema i = (if i = 2 then 8 else if i = 0 then 4 else if i = 1 then 4 else 0)"

subsection \<open>The column-file header \<open>ColFileHeaderT<Schema>\<close>\<close>

text \<open>
  A member of the struct is its size and its alignment in bytes. The members of
  \<open>ColFileHeaderT\<close> in declaration order, for a schema with \<open>c\<close> columns; the length
  of the trailing \<open>pad\<close> array is the constant expression of the declaration.
\<close>

definition pad_len :: "nat \<Rightarrow> int" where
  "pad_len c = 256 - 6 - 2 - 2 - 2 - 4 - 16 - 8 - 8 - 8 - (8 * int c) - (8 * int c)"

definition ColFileHeaderT_members :: "nat \<Rightarrow> (nat \<times> nat) list" where
  "ColFileHeaderT_members c =
     [(6, 1), \<comment> \<open>\<open>char magic[6]\<close>\<close>
      (2, 2), \<comment> \<open>\<open>uint16_t header_size\<close>\<close>
      (2, 2), \<comment> \<open>\<open>uint16_t version\<close>\<close>
      (2, 2), \<comment> \<open>\<open>uint16_t pad16\<close>\<close>
      (4, 4), \<comment> \<open>\<open>uint32_t _pad32\<close>\<close>
      (16, 1), \<comment> \<open>\<open>char product[16]\<close>\<close>
      (8, 8), \<comment> \<open>\<open>uint64_t hour_epoch_start\<close>\<close>
      (8, 8), \<comment> \<open>\<open>uint64_t rows\<close>\<close>
      (8, 8), \<comment> \<open>\<open>uint64_t capacity\<close>\<close>
      (8 * c, 8), \<comment> \<open>\<open>uint64_t col_off[COLS]\<close>\<close>
      (8 * c, 8), \<comment> \<open>\<open>uint64_t col_sz[COLS]\<close>\<close>
      (nat (pad_len c), 1)] \<comment> \<open>\<open>uint8_t pad[...]\<close>\<close>"

text \<open>
  The layout rule of the C++ ABI for a standard-layout struct: each member is placed at
  the next multiple of its alignment, and the size of the struct is the end of the last
  member rounded up to the alignment of the struct (here \<open>alignas(64)\<close>).
\<close>

definition round_up :: "nat \<Rightarrow> nat \<Rightarrow> nat" where
  "round_up x a = (x + (a - 1)) div a * a"

fun place_members :: "nat \<Rightarrow> (nat \<times> nat) list \<Rightarrow> nat" where
  "place_members cur [] = cur"
| "place_members cur ((sz, al) # ms) = place_members (round_up cur al + sz) ms"

definition sizeof_ColFileHeaderT :: "schema \<Rightarrow> nat" where
  "sizeof_ColFileHeaderT s = round_up (place_members 0 (ColFileHeaderT_members (COLS s))) 64"

section \<open>Formatted output\<close>

text \<open>
  The decimal digits that \<open>snprintf\<close> prints: \<open>dec_digits k v\<close> is the last \<open>k\<close> digits of
  \<open>v\<close>, \<open>digits_of v\<close> all its digits, and \<open>fmt_d w v\<close> is the conversion \<open>%0wd\<close> of an
  \<open>int\<close>: at least \<open>w\<close> characters, padded with zeros after the sign.
\<close>

definition digit_char :: "nat \<Rightarrow> char" where
  "digit_char n = ''0123456789'' ! n"

fun dec_digits :: "nat \<Rightarrow> nat \<Rightarrow> string" where
  "dec_digits 0 v = []"
| "dec_digits (Suc k) v = dec_digits k (v div 10) @ [digit_char (v mod 10)]"

fun digits_of :: "nat \<Rightarrow> string" where
  "digits_of v = (if v < 10 then [digit_char v] else digits_of (v div 10) @ [digit_char (v mod 10)])"

declare digits_of.simps [simp del]

definition fmt_d :: "nat \<Rightarrow> int \<Rightarrow> string" where
  "fmt_d w v =
     (if v < 0
      then CHR ''-'' # replicate (w - 1 - length (digits_of (nat (- v)))) (CHR ''0'') @ digits_of (nat (- v))
      else replicate (w - length (digits_of (nat v))) (CHR ''0'') @ digits_of (nat v))"

section \<open>Columnar writer (second part of block_codec.h)\<close>

subsection \<open>Rows and their marshalling\<close>

text \<open>
  The hosts of the program are little-endian: a typed store of a \<open>w\<close>-byte integer
  writes its bytes least significant first. A \<open>float\<close> is carried as its 4-byte
  object representation.
\<close>

definition le_bytes :: "nat \<Rightarrow> 'a::len word \<Rightarrow> u8 list" where
  "le_bytes n w = map (\<lambda>k. ucast (drop_bit (8 * k) w)) [0..<n]"

record L2Row =
  l2_ts_ns :: u64
  l2_price :: u32
  l2_qty :: u32
  l2_side :: u8

text \<open>
  What the writer template takes from its \<open>Schema\<close> parameter: the column count, the
  column widths, \<open>hour_from_row\<close>, and \<open>write_row_to_cols\<close>, given as the bytes the
  row stores into the element of each column.
\<close>

record 'r Schema =
  S_COLS :: nat
  S_MAGIC :: string
  S_VERSION :: u16
  S_col_size :: "nat \<Rightarrow> nat"
  S_hour_from_row :: "'r \<Rightarrow> u64"
  S_col_bytes :: "'r \<Rightarrow> nat \<Rightarrow> u8 list"

text \<open>\<open>hour_from_row\<close> is the same in every schema: the start of the hour of \<open>ts_ns\<close>.\<close>

definition hour_of_ts :: "u64 \<Rightarrow> u64" where
  "hour_of_ts ts = (let s = ts div 1000000000 in (s div 3600) * 3600)"

definition L2 :: "L2Row Schema" where
  "L2 = \<lparr>S_COLS = COLS L2Schema,
         S_MAGIC = ''L2COL'' @ [CHR 0x0A],
         S_VERSION = 1,
         S_col_size = col_size L2Schema,
         S_hour_from_row = (\<lambda>r. hour_of_ts (l2_ts_ns r)),
         S_col_bytes = (\<lambda>r c. if c = 0 then le_bytes 8 (l2_ts_ns r)
                               else if c = 1 then le_bytes 4 (l2_price r)
                               else if c = 2 then le_bytes 4 (l2_qty r)
                               else le_bytes 1 (l2_side r))\<rparr>"

subsection \<open>Columnar writer (\<open>WriterT\<close>)\<close>

text \<open>
  The members of \<open>ColFileHeaderT\<close> that the writer sets, without the product name and the
  padding.
\<close>

record ColFileHeader =
  h_magic :: string
  h_header_size :: u16
  h_version :: u16
  h_hour_epoch_start :: u64
  h_rows :: nat
  h_capacity :: nat
  h_col_off :: "nat list"
  h_col_sz :: "nat list"

text \<open>
  A day file: its allocated length, the header last copied into its first 256 bytes, and
  its bytes by file offset. The directory \<open><base_dir>/<product>\<close> of the writer maps a
  file name to its file.
\<close>

record day_file =
  f_bytes :: nat
  f_header :: ColFileHeader
  f_data :: "nat \<Rightarrow> u8"

text \<open>
  The state of a writer: its members and the files of its directory. \<open>w_fd\<close> is the name
  of the file the descriptor \<open>fd_\<close> refers to, \<open>None\<close> for \<open>-1\<close>; \<open>w_base\<close> tells whether \<open>base_\<close> is not null and
  \<open>w_mapped\<close> whether the region it points to is mapped (after \<open>munmap\<close> the pointer
  dangles). A pointer into the mapping is its offset from the start of the file, \<open>None\<close>
  is \<open>nullptr\<close>. The counters are natural numbers; \<open>w_since_fsync\<close> is the local
  \<open>since_fsync\<close> of \<open>run\<close>.
\<close>

record WriterT =
  w_fd :: "string option"
  w_base :: bool
  w_mapped :: bool
  w_map_bytes :: nat
  w_hdr :: ColFileHeader
  w_col_off :: "nat list"
  w_col_sz :: "nat list"
  w_col_ptrs :: "nat option list"
  w_rows :: nat
  w_dropped :: nat
  w_capacity :: nat
  w_day_start :: u64
  w_since_fsync :: nat
  w_files :: "string \<Rightarrow> day_file option"

text \<open>
  The members of \<open>struct tm\<close> that the writer reads, and the environment of one iteration:
  the outcome of its system calls (\<open>True\<close> is success) and \<open>localtime_r\<close>, which gives the
  local date of a \<open>time_t\<close> in the time zone of the host, or fails.
\<close>

record tm =
  tm_year :: int
  tm_mon :: int
  tm_mday :: int

record sys_env =
  e_mkdir :: bool
  e_open :: bool
  e_fallocate :: bool
  e_mmap :: bool
  e_localtime :: "int \<Rightarrow> tm option"

text \<open>
  \<open>WriterT::date_string\<close>: the epoch second is cast to \<open>time_t\<close>, \<open>localtime_r\<close> fills a
  zero-initialised \<open>tm\<close> (left as it is when the call fails), and
  \<open>snprintf(buf, 16, "%04d%02d%02d", ...)\<close> prints the date, cut to the 15 characters the
  buffer holds. The sums \<open>tm_year + 1900\<close> and \<open>tm_mon + 1\<close> are taken as integers.
\<close>

definition WriterT_date_string :: "sys_env \<Rightarrow> u64 \<Rightarrow> string" where
  "WriterT_date_string env epoch_s =
     (let t = (case e_localtime env (sint epoch_s) of
                 None \<Rightarrow> \<lparr>tm_year = 0, tm_mon = 0, tm_mday = 0\<rparr>
               | Some t \<Rightarrow> t)
      in take 15 (fmt_d 4 (tm_year t + 1900) @ fmt_d 2 (tm_mon t + 1) @ fmt_d 2 (tm_mday t)))"



text \<open>
  A store through a null pointer, into a region that is no longer mapped or beyond the
  mapping has no defined result in the source: the model stops with a fault.
\<close>

datatype fault = NullPointerWrite | UnmappedWrite | WriteOutsideMapping

definition rows_per_hr :: nat where
  "rows_per_hr = 2 ^ 24"

definition HEADER_SZ :: nat where
  "HEADER_SZ = 256"

definition zero_hdr :: "nat \<Rightarrow> ColFileHeader" where
  "zero_hdr n = \<lparr>h_magic = replicate 6 (CHR 0x00), h_header_size = 0, h_version = 0,
                 h_hour_epoch_start = 0, h_rows = 0, h_capacity = 0,
                 h_col_off = replicate n 0, h_col_sz = replicate n 0\<rparr>"

definition empty_file :: "nat \<Rightarrow> day_file" where
  "empty_file n = \<lparr>f_bytes = 0, f_header = zero_hdr n, f_data = (\<lambda>_. 0)\<rparr>"

text \<open>The member initialisers of \<open>WriterT\<close>; \<open>day_start_\<close> starts as \<open>~0ull\<close>.\<close>

definition new_writer :: "'r Schema \<Rightarrow> WriterT" where
  "new_writer S = \<lparr>w_fd = None, w_base = False, w_mapped = False, w_map_bytes = 0,
       w_hdr = zero_hdr (S_COLS S), w_col_off = replicate (S_COLS S) 0,
       w_col_sz = replicate (S_COLS S) 0, w_col_ptrs = replicate (S_COLS S) None,
       w_rows = 0, w_dropped = 0, w_capacity = rows_per_hr, w_day_start = - 1,
       w_since_fsync = 0, w_files = (\<lambda>_. None)\<rparr>"

definition day_from_hour :: "u64 \<Rightarrow> u64" where
  "day_from_hour hour_s = hour_s - (hour_s mod 86400)"

text \<open>The column offsets laid out from \<open>HEADER_SZ\<close>: \<open>off += col_sz_[i]\<close>.\<close>

fun col_offsets :: "nat \<Rightarrow> nat list \<Rightarrow> nat list" where
  "col_offsets off [] = []"
| "col_offsets off (sz # szs) = off # col_offsets (off + sz) szs"

text \<open>A store through the mapping reaches the file (\<open>MAP_SHARED\<close>).\<close>

definition store_bytes :: "(nat \<Rightarrow> u8) \<Rightarrow> nat \<Rightarrow> u8 list \<Rightarrow> (nat \<Rightarrow> u8)" where
  "store_bytes m a bs = (\<lambda>x. if a \<le> x \<and> x < a + length bs then bs ! (x - a) else m x)"

text \<open>A change of the open file, if there is one.\<close>

definition map_file :: "(day_file \<Rightarrow> day_file) \<Rightarrow> WriterT \<Rightarrow> WriterT" where
  "map_file g w =
     (case w_fd w of
        None \<Rightarrow> w
      | Some d \<Rightarrow> (case w_files w d of
                     None \<Rightarrow> w
                   | Some f \<Rightarrow> w\<lparr>w_files := (w_files w)(d := Some (g f))\<rparr>))"

text \<open>\<open>memcpy(base_, &hdr_, sizeof(hdr_))\<close>, followed by an \<open>msync\<close> whose result is ignored.\<close>

definition write_header :: "WriterT \<Rightarrow> fault + WriterT" where
  "write_header w =
     (if w_mapped w then Inr (map_file (\<lambda>f. f\<lparr>f_header := w_hdr w\<rparr>) w)
      else Inl UnmappedWrite)"

definition update_rows_in_header :: "WriterT \<Rightarrow> fault + WriterT" where
  "update_rows_in_header w =
     (if w_base w then write_header (w\<lparr>w_hdr := (w_hdr w)\<lparr>h_rows := w_rows w\<rparr>\<rparr>)
      else Inr w)"

text \<open>
  \<open>close_file\<close> returns at once when \<open>base_\<close> is null; otherwise the mapping and the
  descriptor are released and the row counter, the header and the column arrays are
  zeroed.
\<close>

definition close_file :: "'r Schema \<Rightarrow> WriterT \<Rightarrow> WriterT" where
  "close_file S w =
     (if w_base w then
        w\<lparr>w_base := False, w_mapped := False, w_map_bytes := 0, w_fd := None, w_rows := 0,
          w_hdr := zero_hdr (S_COLS S),
          w_col_off := replicate (S_COLS S) 0,
          w_col_sz := replicate (S_COLS S) 0,
          w_col_ptrs := replicate (S_COLS S) None\<rparr>
      else w)"

text \<open>
  \<open>open_day_file\<close>: the capacity is reset to \<open>2 * rows_per_hr\<close> and the column sizes are
  computed before anything can fail; then \<open>mkdir\<close>, \<open>open\<close> with \<open>O_CREAT\<close> of the file
  named by the local date of the day (a file that exists keeps its bytes),
  \<open>posix_fallocate\<close> and \<open>mmap\<close>, each of which may fail; then the header is filled and
  copied into the file, the column pointers are set and the row counter is zeroed. The
  result tells whether the file is open.
\<close>

definition open_day_file :: "'r Schema \<Rightarrow> sys_env \<Rightarrow> u64 \<Rightarrow> WriterT \<Rightarrow> bool \<times> WriterT" where
  "open_day_file S env day_s w0 =
     (let capacity = rows_per_hr * 2;
          col_sz = map (\<lambda>i. capacity * S_col_size S i) [0..<S_COLS S];
          file_bytes = HEADER_SZ + sum_list col_sz;
          w1 = w0\<lparr>w_capacity := capacity, w_col_sz := col_sz\<rparr>
      in if e_mkdir env then
           (let path = WriterT_date_string env day_s @ ''.bin''
            in if e_open env then
              (let f0 = (case w_files w1 path of None \<Rightarrow> empty_file (S_COLS S) | Some f \<Rightarrow> f);
                   w2 = w1\<lparr>w_fd := Some path, w_files := (w_files w1)(path := Some f0)\<rparr>
               in if e_fallocate env then
                    (let f1 = f0\<lparr>f_bytes := max (f_bytes f0) file_bytes\<rparr>;
                         w3 = w2\<lparr>w_files := (w_files w2)(path := Some f1), w_map_bytes := file_bytes\<rparr>
                     in if e_mmap env then
                          (let offs = col_offsets HEADER_SZ col_sz;
                               hdr = \<lparr>h_magic = take 6 (S_MAGIC S @ replicate 6 (CHR 0x00)),
                                      h_header_size = of_nat HEADER_SZ, h_version = S_VERSION S,
                                      h_hour_epoch_start = w_day_start w3,
                                      h_rows = 0, h_capacity = capacity, h_col_off = offs,
                                      h_col_sz = map (S_col_size S) [0..<S_COLS S]\<rparr>
                           in (True, w3\<lparr>w_base := True, w_mapped := True, w_hdr := hdr,
                                   w_col_off := offs,
                                   w_files := (w_files w3)(path := Some (f1\<lparr>f_header := hdr\<rparr>)),
                                   w_col_ptrs := map Some offs, w_rows := 0\<rparr>))
                        else (False, w3\<lparr>w_base := False, w_mapped := False, w_fd := None\<rparr>))
                  else (False, w2\<lparr>w_fd := None\<rparr>))
            else (False, w1\<lparr>w_fd := None\<rparr>))
         else (False, w1))"

text \<open>
  \<open>rotate_to_day\<close>: the row count is written into the header of the open file, the file
  is closed, \<open>day_start_\<close> is set to the new day, and the file of that day is opened.
\<close>

definition rotate_to_day :: "'r Schema \<Rightarrow> sys_env \<Rightarrow> u64 \<Rightarrow> WriterT \<Rightarrow> fault + (bool \<times> WriterT)" where
  "rotate_to_day S env day_s w =
     (if w_day_start w = day_s then Inr (True, w)
      else case update_rows_in_header w of
             Inl e \<Rightarrow> Inl e
           | Inr w1 \<Rightarrow> Inr (open_day_file S env day_s ((close_file S w1)\<lparr>w_day_start := day_s\<rparr>)))"

text \<open>
  \<open>grow_file\<close>: the column sizes for the doubled capacity are stored, the mapping is
  released, the file is extended by \<open>posix_fallocate\<close> (its bytes stay) and mapped again;
  then the capacity, the column offsets and the column pointers are set for the doubled
  capacity and the header is copied into the file.
\<close>

definition grow_file :: "'r Schema \<Rightarrow> sys_env \<Rightarrow> WriterT \<Rightarrow> fault + (bool \<times> WriterT)" where
  "grow_file S env w0 =
     (let new_capacity = w_capacity w0 * 2;
          col_sz = map (\<lambda>i. new_capacity * S_col_size S i) [0..<S_COLS S];
          new_file_bytes = HEADER_SZ + sum_list col_sz;
          w1 = w0\<lparr>w_col_sz := col_sz, w_mapped := False\<rparr>
      in if e_fallocate env then
           (let w2 = (map_file (\<lambda>f. f\<lparr>f_bytes := max (f_bytes f) new_file_bytes\<rparr>) w1)
                       \<lparr>w_map_bytes := new_file_bytes\<rparr>
            in if e_mmap env then
                 (let offs = col_offsets HEADER_SZ col_sz;
                      hdr = (w_hdr w2)\<lparr>h_capacity := new_capacity, h_col_off := offs,
                                        h_col_sz := map (S_col_size S) [0..<S_COLS S]\<rparr>;
                      w3 = w2\<lparr>w_base := True, w_mapped := True, w_capacity := new_capacity,
                              w_hdr := hdr, w_col_off := offs, w_col_ptrs := map Some offs\<rparr>
                  in case write_header w3 of
                       Inl e \<Rightarrow> Inl e
                     | Inr w4 \<Rightarrow> Inr (True, w4))
               else Inr (False, w2\<lparr>w_base := False\<rparr>))
         else Inr (False, w1))"

text \<open>
  \<open>Schema::write_row_to_cols(row, col_ptrs_, idx)\<close>: one store per column, into element
  \<open>idx\<close> of the column.
\<close>

definition store_elem :: "'r Schema \<Rightarrow> 'r \<Rightarrow> nat \<Rightarrow> nat \<Rightarrow> WriterT \<Rightarrow> fault + WriterT" where
  "store_elem S row idx c w =
     (case w_col_ptrs w ! c of
        None \<Rightarrow> Inl NullPointerWrite
      | Some p \<Rightarrow>
          (let a = p + idx * S_col_size S c in
           if w_mapped w then
             (if a + S_col_size S c \<le> w_map_bytes w
              then Inr (map_file (\<lambda>f. f\<lparr>f_data := store_bytes (f_data f) a (S_col_bytes S row c)\<rparr>) w)
              else Inl WriteOutsideMapping)
           else Inl UnmappedWrite))"

fun store_cols :: "'r Schema \<Rightarrow> 'r \<Rightarrow> nat \<Rightarrow> nat list \<Rightarrow> WriterT \<Rightarrow> fault + WriterT" where
  "store_cols S row idx [] w = Inr w"
| "store_cols S row idx (c # cs) w =
     (case store_elem S row idx c w of Inl e \<Rightarrow> Inl e | Inr w' \<Rightarrow> store_cols S row idx cs w')"

definition write_row_to_cols :: "'r Schema \<Rightarrow> 'r \<Rightarrow> nat \<Rightarrow> WriterT \<Rightarrow> fault + WriterT" where
  "write_row_to_cols S row idx w = store_cols S row idx [0..<S_COLS S] w"

text \<open>
  One iteration of the loop of \<open>run\<close> on a dequeued row, in three parts: the rewrite of the
  row count every \<open>fsync_every_rows\<close> rows (\<open>after_write\<close>), the reservation of an index with
  the grow on overflow and the store of the row (\<open>write_at\<close>), and before them the rotation
  when the day of the row is not \<open>day_start_\<close> (\<open>process_row\<close>).
\<close>

definition after_write :: "nat \<Rightarrow> WriterT \<Rightarrow> fault + WriterT" where
  "after_write fsync_every_rows w =
     (if fsync_every_rows \<noteq> 0 then
        (if w_since_fsync w + 1 \<ge> fsync_every_rows
         then (case update_rows_in_header w of
                 Inl e \<Rightarrow> Inl e
               | Inr w' \<Rightarrow> Inr (w'\<lparr>w_since_fsync := 0\<rparr>))
         else Inr (w\<lparr>w_since_fsync := w_since_fsync w + 1\<rparr>))
      else Inr w)"

definition write_at :: "'r Schema \<Rightarrow> nat \<Rightarrow> sys_env \<Rightarrow> 'r \<Rightarrow> WriterT \<Rightarrow> fault + WriterT" where
  "write_at S fsync_every_rows env row w =
     (let idx = w_rows w; w1 = w\<lparr>w_rows := w_rows w + 1\<rparr>
      in if idx \<ge> w_capacity w1 then
           (case grow_file S env w1 of
              Inl e \<Rightarrow> Inl e
            | Inr (ok, w2) \<Rightarrow>
                if ok then
                  (case write_row_to_cols S row idx w2 of
                     Inl e \<Rightarrow> Inl e
                   | Inr w3 \<Rightarrow> after_write fsync_every_rows w3)
                else Inr (w2\<lparr>w_rows := w_capacity w2, w_dropped := w_dropped w2 + 1\<rparr>))
         else (case write_row_to_cols S row idx w1 of
                 Inl e \<Rightarrow> Inl e
               | Inr w3 \<Rightarrow> after_write fsync_every_rows w3))"

definition process_row :: "'r Schema \<Rightarrow> nat \<Rightarrow> sys_env \<Rightarrow> 'r \<Rightarrow> WriterT \<Rightarrow> fault + WriterT" where
  "process_row S fsync_every_rows env row w =
     (let h = S_hour_from_row S row; d = day_from_hour h
      in if d \<noteq> w_day_start w then
           (case rotate_to_day S env d w of
              Inl e \<Rightarrow> Inl e
            | Inr (ok, w1) \<Rightarrow>
                if ok then write_at S fsync_every_rows env row w1
                else Inr (w1\<lparr>w_dropped := w_dropped w1 + 1\<rparr>))
         else write_at S fsync_every_rows env row w)"

text \<open>
  The loop of \<open>run\<close> over the rows it dequeues, each with the outcome of the system calls of
  its iteration. It stops at a fault.
\<close>

fun run_rows :: "'r Schema \<Rightarrow> nat \<Rightarrow> (sys_env \<times> 'r) list \<Rightarrow> WriterT \<Rightarrow> fault + WriterT" where
  "run_rows S fsync_every_rows [] w = Inr w"
| "run_rows S fsync_every_rows ((env, row) # rest) w =
     (case process_row S fsync_every_rows env row w of
        Inl e \<Rightarrow> Inl e
      | Inr w' \<Rightarrow> run_rows S fsync_every_rows rest w')"

text \<open>
  Column \<open>i\<close> at row \<open>j\<close> as a reader of the open file sees it through the column pointers
  of the writer: the \<open>col_size(i)\<close> bytes at \<open>col_ptrs_[i] + j * col_size(i)\<close>.
\<close>

definition read_col :: "'r Schema \<Rightarrow> WriterT \<Rightarrow> nat \<Rightarrow> nat \<Rightarrow> u8 list option" where
  "read_col S w i j =
     (case (w_col_ptrs w ! i, w_fd w) of
        (Some p, Some d) \<Rightarrow>
          (case w_files w d of
             None \<Rightarrow> None
           | Some f \<Rightarrow> Some (map (\<lambda>k. f_data f (p + j * S_col_size S i + k)) [0..<S_col_size S i]))
      | _ \<Rightarrow> None)"

section \<open>Block reader and block writer: the day files (block_reader.h, block_writer.h)\<close>

text \<open>
  The file system as the reader sees it: a directory path either does not exist or
  lists its entries, each a file name and whether it is a regular file.
\<close>

type_synonym filesystem = "string \<Rightarrow> (string \<times> bool) list option"

record BlockReaderOpt =
  base_dir :: string
  product :: string
  date_from :: nat
  date_to :: nat

record DayFile =
  yyyymmdd :: nat
  path :: string

definition is_digit :: "char \<Rightarrow> bool" where
  "is_digit c = (c \<in> set ''0123456789'')"

definition digit_val :: "char \<Rightarrow> nat" where
  "digit_val c = of_char c - of_char CHR ''0''"

text \<open>
  \<open>std::from_chars\<close> on an unsigned 32-bit target, base 10: the longest prefix of
  digits is consumed; no digit at all or a value beyond \<open>uint32_t\<close> is an error.
  The result is the number of characters consumed and the value.
\<close>

definition from_chars_u32 :: "string \<Rightarrow> (nat \<times> nat) option" where
  "from_chars_u32 s =
     (let ds = takeWhile is_digit s;
          v = foldl (\<lambda>a c. 10 * a + digit_val c) 0 ds
      in if ds = [] \<or> 2 ^ 32 \<le> v then None else Some (length ds, v))"

text \<open>
  \<open>BlockReaderT::parse_yyyymmdd\<close>: the date is read from the 8 characters that start 12
  characters before the end of the name.
\<close>

definition parse_yyyymmdd :: "string \<Rightarrow> nat option" where
  "parse_yyyymmdd name =
     (if length name < 12 then None
      else let stem = take 8 (drop (length name - 12) name)
           in case from_chars_u32 stem of
                None \<Rightarrow> None
              | Some (p, val) \<Rightarrow> if p \<noteq> 8 then None else Some val)"

text \<open>
  \<open>std::filesystem::path::extension\<close> of a file name: the part from the last dot on,
  empty for \<open>.\<close> and \<open>..\<close>, for a name without a dot and for a name whose only dot is
  its first character.
\<close>

definition extension :: "string \<Rightarrow> string" where
  "extension name =
     (let r = takeWhile (\<lambda>c. c \<noteq> CHR ''.'') (rev name)
      in if name = ''.'' \<or> name = ''..'' \<or> length r = length name \<or> Suc (length r) = length name
         then [] else CHR ''.'' # rev r)"

text \<open>\<open>fs::path(dir) / name\<close> for a relative name.\<close>

definition path_append :: "string \<Rightarrow> string \<Rightarrow> string" where
  "path_append d n = d @ ''/'' @ n"

text \<open>
  The body of the loop of \<open>BlockReaderT::build_day_file_list\<close> over the entries of the
  directory, and the list it builds, sorted by date. \<open>std::sort\<close> leaves the order of files
  of the same date open; \<open>sort_key\<close> keeps them in the order of the directory.
\<close>

definition keep_entry :: "BlockReaderOpt \<Rightarrow> string \<Rightarrow> string \<times> bool \<Rightarrow> DayFile option" where
  "keep_entry opt dir e =
     (if \<not> snd e then None
      else if extension (fst e) \<noteq> ''.bin'' then None
      else case parse_yyyymmdd (fst e) of
             None \<Rightarrow> None
           | Some d \<Rightarrow>
               if d < date_from opt \<or> d > date_to opt then None
               else Some \<lparr>yyyymmdd = d, path = path_append dir (fst e)\<rparr>)"

definition build_day_file_list :: "BlockReaderOpt \<Rightarrow> filesystem \<Rightarrow> DayFile list" where
  "build_day_file_list opt fs =
     (let dir = path_append (base_dir opt) (product opt)
      in case fs dir of
           None \<Rightarrow> []
         | Some es \<Rightarrow> sort_key yyyymmdd (List.map_filter (keep_entry opt dir) es))"

text \<open>
  \<open>BlockWriterT::date_string\<close>: \<open>snprintf(buf, 10, "%08u", yyyymmdd)\<close>, the decimal digits
  padded with zeros to 8 characters and cut to the 9 characters the buffer holds.
\<close>

definition date_string :: "u32 \<Rightarrow> string" where
  "date_string d =
     (if unat d < 100000000 then dec_digits 8 (unat d)
      else if unat d < 1000000000 then dec_digits 9 (unat d)
      else take 9 (dec_digits 10 (unat d)))"

record BlockWriterOpt =
  w_base_dir :: string
  w_product :: string
  fsync_every_blocks :: nat
  block_rows :: nat

text \<open>
  The file \<open>BlockWriterT::open_day_file\<close> creates for a day: its directory and its
  name.
\<close>

definition block_file_path :: "BlockWriterOpt \<Rightarrow> u32 \<Rightarrow> string \<times> string" where
  "block_file_path opt d =
     (w_base_dir opt @ ''/'' @ w_product opt @ ''-BLOCKS'', date_string d @ ''.blocks'')"


section \<open>Block codec (block_codec.h)\<close>

subsection \<open>Zigzag coding\<close>

text \<open>
  \<open>zigzag_enc32\<close> takes an \<open>int32_t\<close>: \<open>static_cast<uint32_t>(v) << 1\<close> is \<open>push_bit 1\<close>
  and \<open>v >> 31\<close> on the signed value is the arithmetic shift. \<open>zigzag_dec32\<close> returns the
  word it computes, cast to \<open>int32_t\<close>.
\<close>

definition zigzag_enc32 :: "u32 \<Rightarrow> u32" where
  "zigzag_enc32 v = push_bit 1 v XOR signed_drop_bit 31 v"

definition zigzag_dec32 :: "u32 \<Rightarrow> u32" where
  "zigzag_dec32 v = drop_bit 1 v XOR - (v AND 1)"

subsection \<open>Block header\<close>

text \<open>
  \<open>BlockHeader\<close> is declared under \<open>#pragma pack(1)\<close>: its 76 bytes are its members in
  order without padding. \<open>memcpy\<close> of the struct writes and reads these bytes.
\<close>

record BlockHeader =
  magic :: "u8 list"
  version :: u16
  flags :: u16
  n_rows :: u32
  base_ts :: u64
  base_px :: u32
  ts_scale_ns :: u32
  ts_bw :: u8
  px_bw :: u8
  reserved0 :: u16
  off_ts :: u32
  len_ts :: u32
  off_px :: u32
  len_px :: u32
  off_sz :: u32
  len_sz :: u32
  off_side :: u32
  len_side :: u32
  off_type :: u32
  len_type :: u32

definition sizeof_BlockHeader :: nat where
  "sizeof_BlockHeader = 76"

text \<open>The value of a little-endian byte sequence.\<close>

fun le_word :: "u8 list \<Rightarrow> 'a::len word" where
  "le_word [] = 0"
| "le_word (b # bs) = ucast b OR push_bit 8 (le_word bs)"

definition header_bytes :: "BlockHeader \<Rightarrow> u8 list" where
  "header_bytes h =
     take 8 (magic h @ replicate 8 0) @ le_bytes 2 (version h) @ le_bytes 2 (flags h)
     @ le_bytes 4 (n_rows h) @ le_bytes 8 (base_ts h) @ le_bytes 4 (base_px h)
     @ le_bytes 4 (ts_scale_ns h) @ [ts_bw h] @ [px_bw h] @ le_bytes 2 (reserved0 h)
     @ le_bytes 4 (off_ts h) @ le_bytes 4 (len_ts h) @ le_bytes 4 (off_px h)
     @ le_bytes 4 (len_px h) @ le_bytes 4 (off_sz h) @ le_bytes 4 (len_sz h)
     @ le_bytes 4 (off_side h) @ le_bytes 4 (len_side h) @ le_bytes 4 (off_type h)
     @ le_bytes 4 (len_type h)"

definition bytes_at :: "u8 list \<Rightarrow> nat \<Rightarrow> nat \<Rightarrow> u8 list" where
  "bytes_at src off n = take n (drop off src)"

definition read_header :: "u8 list \<Rightarrow> BlockHeader" where
  "read_header src =
     \<lparr>magic = bytes_at src 0 8, version = le_word (bytes_at src 8 2), flags = le_word (bytes_at src 10 2),
      n_rows = le_word (bytes_at src 12 4), base_ts = le_word (bytes_at src 16 8),
      base_px = le_word (bytes_at src 24 4), ts_scale_ns = le_word (bytes_at src 28 4),
      ts_bw = le_word (bytes_at src 32 1), px_bw = le_word (bytes_at src 33 1),
      reserved0 = le_word (bytes_at src 34 2),
      off_ts = le_word (bytes_at src 36 4), len_ts = le_word (bytes_at src 40 4),
      off_px = le_word (bytes_at src 44 4), len_px = le_word (bytes_at src 48 4),
      off_sz = le_word (bytes_at src 52 4), len_sz = le_word (bytes_at src 56 4),
      off_side = le_word (bytes_at src 60 4), len_side = le_word (bytes_at src 64 4),
      off_type = le_word (bytes_at src 68 4), len_type = le_word (bytes_at src 72 4)\<rparr>"

subsection \<open>Bit widths\<close>

text \<open>\<open>__builtin_clzll\<close>: the number of leading zero bits of a non-zero 64-bit value.\<close>

definition clzll :: "u64 \<Rightarrow> nat" where
  "clzll x = length (takeWhile (\<lambda>i. \<not> bit x i) (rev [0..<64]))"

definition ceil_log2_u64 :: "u64 \<Rightarrow> u64" where
  "ceil_log2_u64 x = (if x \<le> 1 then 1 else 64 - of_nat (clzll (x - 1)))"

subsection \<open>Bit packing\<close>

text \<open>
  The inner loop of the packers: while at least 8 bits are buffered, the low byte of the
  accumulator is appended and the accumulator shifted. The result is the bytes appended,
  the accumulator and the number of buffered bits. The packers are modelled for the
  widths whose mask is defined: up to 64 in \<open>bitpack_u64\<close> and up to 63 in \<open>bitpack_u32\<close>
  (beyond, \<open>1ull << bw\<close> shifts by the width of its operand or more).
\<close>

function flush :: "u64 \<Rightarrow> nat \<Rightarrow> u8 list \<times> u64 \<times> nat" where
  "flush acc bits =
     (if 8 \<le> bits
      then (case flush (drop_bit 8 acc) (bits - 8) of
              (bs, acc', bits') \<Rightarrow> (ucast (acc AND 0xff) # bs, acc', bits'))
      else ([], acc, bits))"
  by pat_completeness auto
termination
  by (relation "measure (\<lambda>(acc, bits). bits)") auto

declare flush.simps [simp del]

fun pack_loop :: "u64 list \<Rightarrow> nat \<Rightarrow> u64 \<Rightarrow> u64 \<Rightarrow> nat \<Rightarrow> u8 list" where
  "pack_loop [] bw msk acc bits = (if 0 < bits then [ucast (acc AND 0xff)] else [])"
| "pack_loop (x # xs) bw msk acc bits =
     (let v = x AND msk;
          acc1 = acc OR push_bit bits v
      in case flush acc1 (bits + bw) of
           (bs, acc2, bits2) \<Rightarrow> bs @ pack_loop xs bw msk acc2 bits2)"

definition bitpack_u64 :: "u64 list \<Rightarrow> nat \<Rightarrow> u8 list \<Rightarrow> u8 list" where
  "bitpack_u64 vals bw out =
     (if bw = 0 \<or> vals = [] then out
      else out @ pack_loop vals bw (if bw = 64 then - 1 else push_bit bw 1 - 1) 0 0)"

definition bitpack_u32 :: "u32 list \<Rightarrow> nat \<Rightarrow> u8 list \<Rightarrow> u8 list" where
  "bitpack_u32 vals bw out =
     (if bw = 0 \<or> vals = [] then out
      else out @ pack_loop (map ucast vals) bw
                  (if bw = 32 then 0xffffffff else push_bit bw 1 - 1) 0 0)"

text \<open>
  The inner loop of the unpackers: bytes are read into the accumulator until \<open>bw\<close> bits
  are buffered. An unpacker has no defined result, \<open>None\<close>, when it reads past the end of
  the bytes that can be read, and when \<open>bw\<close> is 64 or more: \<open>acc >>= bw\<close> is then a shift
  by the width of \<open>acc\<close> or more, and above 64 so is \<open>1ull << bw\<close> of the mask.
\<close>

fun refill :: "nat \<Rightarrow> u64 \<Rightarrow> nat \<Rightarrow> u8 list \<Rightarrow> (u64 \<times> nat \<times> u8 list) option" where
  "refill bw acc bits [] = (if bits < bw then None else Some (acc, bits, []))"
| "refill bw acc bits (b # src) =
     (if bits < bw then refill bw (acc OR push_bit bits (ucast b)) (bits + 8) src
      else Some (acc, bits, b # src))"

fun unpack_loop :: "nat \<Rightarrow> nat \<Rightarrow> u64 \<Rightarrow> u64 \<Rightarrow> nat \<Rightarrow> u8 list \<Rightarrow> u64 list option" where
  "unpack_loop 0 bw msk acc bits src = Some []"
| "unpack_loop (Suc n) bw msk acc bits src =
     (case refill bw acc bits src of
        None \<Rightarrow> None
      | Some (acc', bits', src') \<Rightarrow>
          map_option ((#) (acc' AND msk))
            (unpack_loop n bw msk (drop_bit bw acc') (bits' - bw) src'))"

definition bitunpack_u64 :: "u8 list \<Rightarrow> nat \<Rightarrow> nat \<Rightarrow> u64 list option" where
  "bitunpack_u64 src n bw =
     (if bw = 0 \<or> n = 0 then Some (replicate n 0)
      else if 64 \<le> bw then None
      else unpack_loop n bw (if bw = 64 then - 1 else push_bit bw 1 - 1) 0 0 src)"

text \<open>
  In \<open>bitunpack_u32\<close> the branch for \<open>bw == 0 || n == 0\<close> does not return: the zeros it
  writes are overwritten by the loop that follows.
\<close>

definition bitunpack_u32 :: "u8 list \<Rightarrow> nat \<Rightarrow> nat \<Rightarrow> u32 list option" where
  "bitunpack_u32 src n bw =
     (if 64 \<le> bw then None
      else map_option (map ucast)
             (unpack_loop n bw (if bw = 32 then 0xffffffff else push_bit bw 1 - 1) 0 0 src))"

text \<open>One byte of \<open>m\<close> flags: bit \<open>k\<close> is the lowest bit of \<open>src[k]\<close>.\<close>

definition pack_bits :: "u8 list \<Rightarrow> nat \<Rightarrow> u8" where
  "pack_bits src m = foldl (\<lambda>b k. b OR push_bit k (src ! k AND 1)) 0 [0..<m]"

function bitpack_u8_loop :: "u8 list \<Rightarrow> u8 list" where
  "bitpack_u8_loop src =
     (if 8 \<le> length src then pack_bits src 8 # bitpack_u8_loop (drop 8 src)
      else if 0 < length src then [pack_bits src (length src)]
      else [])"
  by pat_completeness auto
termination
  by (relation "measure length") auto

declare bitpack_u8_loop.simps [simp del]

definition bitpack_u8 :: "u8 list \<Rightarrow> u8 list \<Rightarrow> u8 list" where
  "bitpack_u8 src out = out @ bitpack_u8_loop src"

function bitunpack_u8 :: "u8 list \<Rightarrow> nat \<Rightarrow> u8 list option" where
  "bitunpack_u8 src n =
     (if 8 \<le> n then
        (case src of
           [] \<Rightarrow> None
         | b # src' \<Rightarrow>
             map_option ((@) (map (\<lambda>k. drop_bit k b AND 1) [0..<8])) (bitunpack_u8 src' (n - 8)))
      else if 0 < n then
        (case src of
           [] \<Rightarrow> None
         | b # src' \<Rightarrow> Some (map (\<lambda>k. drop_bit k b AND 1) [0..<n]))
      else Some [])"
  by pat_completeness auto
termination
  by (relation "measure (\<lambda>(src, n). n)") auto

declare bitunpack_u8.simps [simp del]

subsection \<open>Rows of the block codec\<close>

text \<open>
  The codec is a template over \<open>Schema::Row\<close>. It uses the members \<open>ts_ns\<close>, \<open>ts_ts\<close>,
  \<open>price\<close>, \<open>size\<close>, \<open>side\<close> and \<open>type\<close> of a row; no row type of schemas.h has
  all of them, so the row is the record of exactly these members: 64-bit timestamps, a
  32-bit price as in \<open>L2Row\<close>, \<open>size\<close> a \<open>float\<close> carried as its four bytes, \<open>side\<close>
  a byte and \<open>type\<close> a character.
\<close>

record Row =
  r_ts_ns :: u64
  r_ts_ts :: u64
  r_price :: u32
  r_size :: u32
  r_side :: u8
  r_type :: char

definition zero_Row :: Row where
  "zero_Row = \<lparr>r_ts_ns = 0, r_ts_ts = 0, r_price = 0, r_size = 0, r_side = 0, r_type = CHR 0x00\<rparr>"

text \<open>\<open>std::vector::resize\<close>: new elements are value-initialised.\<close>

definition resize :: "'a \<Rightarrow> 'a list \<Rightarrow> nat \<Rightarrow> 'a list" where
  "resize z xs n = take n xs @ replicate (n - length xs) z"

subsection \<open>\<open>encode_block\<close>\<close>

text \<open>
  \<open>encode_block\<close> appends a block to \<open>out\<close>: room for the header, the packed timestamp
  quotients, the packed zigzag price deltas, the four bytes of each size, the side flags
  and the type flags; the header is copied over its room at the end. The price delta is
  computed in 64 bits and cast to \<open>int32_t\<close>, which is the difference of the 32-bit
  words. The lengths and offsets of the header are \<open>uint32_t\<close>. From \<open>2^30\<close> rows on,
  \<open>n * sizeof(float)\<close> wraps and the source copies the sizes beyond the vector it
  resized; the model appends the sizes of all rows, and the properties below are about
  fewer than \<open>2^28\<close> rows.
\<close>

definition encode_block :: "Row list \<Rightarrow> u8 list \<Rightarrow> u8 list" where
  "encode_block rows out =
     (if rows = [] then out
      else
        let n = length rows;
            base_ts = r_ts_ns (hd rows);
            base_px = r_price (hd rows);
            scale = 1000000 :: u32;
            ts_delta = map (\<lambda>r. ucast (ucast ((r_ts_ns r - base_ts) div ucast scale) :: u32) :: u64) rows;
            px_delta_zigzag = map (\<lambda>r. zigzag_enc32 (r_price r - base_px)) rows;
            side = map r_side rows;
            type = map (\<lambda>r. if r_type r = CHR ''T'' then 1 else 0 :: u8) rows;
            max_dt = foldl max 0 ts_delta;
            max_dxz = foldl max 0 (map ucast px_delta_zigzag :: u64 list);
            bw_ts = ucast (ceil_log2_u64 (max_dt + 1)) :: u8;
            bw_px = ucast (ceil_log2_u64 (max_dxz + 1)) :: u8;
            start = of_nat (length out) :: u32;
            hdr_size = of_nat sizeof_BlockHeader :: u32;
            out1 = resize 0 out (unat (start + hdr_size));
            out2 = bitpack_u64 ts_delta (unat bw_ts) out1;
            l_ts = of_nat (length out2 - length out1) :: u32;
            out3 = bitpack_u32 px_delta_zigzag (unat bw_px) out2;
            l_px = of_nat (length out3 - length out2) :: u32;
            l_sz = of_nat n * 4 :: u32;
            out4 = out3 @ concat (map (\<lambda>r. le_bytes 4 (r_size r)) rows);
            out5 = bitpack_u8 side out4;
            l_side = of_nat (length out5 - length out4) :: u32;
            out6 = bitpack_u8 type out5;
            l_type = of_nat (length out6 - length out5) :: u32;
            o_ts = hdr_size;
            o_px = o_ts + l_ts;
            o_sz = o_px + l_px;
            o_side = o_sz + l_sz;
            o_type = o_side + l_side;
            hdr = \<lparr>magic = replicate 8 0, version = 1, flags = 0, n_rows = of_nat n,
                   base_ts = base_ts, base_px = base_px, ts_scale_ns = scale,
                   ts_bw = bw_ts, px_bw = bw_px, reserved0 = 0,
                   off_ts = o_ts, len_ts = l_ts, off_px = o_px, len_px = l_px,
                   off_sz = o_sz, len_sz = l_sz, off_side = o_side, len_side = l_side,
                   off_type = o_type, len_type = l_type\<rparr>
        in take (unat start) out6 @ header_bytes hdr @ drop (unat start + sizeof_BlockHeader) out6)"

subsection \<open>\<open>decode_block\<close>\<close>

text \<open>
  \<open>decode_block\<close> calls \<open>check_magic\<close>, which the sources do not define: it is a parameter.
  The source reads the columns at the offsets of the header without comparing them with
  \<open>src_len\<close>, and unpacks with the widths of the header; in the model a read beyond the
  bytes given and an unpacker without a defined result are the error
  \<open>UndefinedBehaviour\<close>, beside the two errors the source throws before it reads a column
  and the price error.
  \<open>decode_rows\<close> is the loop over the rows: it assigns \<open>ts_ts\<close>, \<open>size\<close>, \<open>side\<close> and \<open>type\<close>
  of the row, as the source does.
\<close>

datatype decode_error = BlockTooSmall | BadMagic | PriceOverflow | UndefinedBehaviour

fun decode_rows ::
  "BlockHeader \<Rightarrow> u64 list \<Rightarrow> u32 list \<Rightarrow> u8 list \<Rightarrow> u8 list \<Rightarrow> u8 list \<Rightarrow> Row list
     \<Rightarrow> decode_error + Row list" where
  "decode_rows hdr (u # us) (z # zs) (s # ss) (t # ts) p_sz (r # rs) =
     (let dx = zigzag_dec32 z;
          px = ucast (base_px hdr + dx) :: u64
      in if px < 0 \<or> px > 0xffffffff then Inl PriceOverflow
         else if length p_sz < 4 then Inl UndefinedBehaviour
         else (case decode_rows hdr us zs ss ts (drop 4 p_sz) rs of
                 Inl e \<Rightarrow> Inl e
               | Inr rs' \<Rightarrow>
                   Inr (r\<lparr>r_ts_ts := base_ts hdr + u * ucast (ts_scale_ns hdr),
                         r_size := le_word (take 4 p_sz),
                         r_side := s,
                         r_type := (if t = 1 then CHR ''T'' else CHR ''L'')\<rparr> # rs')))"
| "decode_rows hdr us zs ss ts p_sz rs = Inr []"

definition decode_block ::
  "(BlockHeader \<Rightarrow> bool) \<Rightarrow> u8 list \<Rightarrow> Row list \<Rightarrow> decode_error + (nat \<times> Row list)" where
  "decode_block check_magic src rows_out =
     (if length src < sizeof_BlockHeader then Inl BlockTooSmall
      else
        let hdr = read_header src in
        if check_magic hdr then
          (if n_rows hdr = 0 then Inr (sizeof_BlockHeader, rows_out)
           else
             let n = unat (n_rows hdr);
                 rows1 = resize zero_Row rows_out n
             in case (if ts_bw hdr = 0 then Some (replicate n 0)
                      else bitunpack_u64 (drop (unat (off_ts hdr)) src) n (unat (ts_bw hdr))) of
                  None \<Rightarrow> Inl UndefinedBehaviour
                | Some ts_delta \<Rightarrow>
               (case (if px_bw hdr = 0 then Some (replicate n 0)
                      else bitunpack_u32 (drop (unat (len_px hdr)) src) n (unat (px_bw hdr))) of
                  None \<Rightarrow> Inl UndefinedBehaviour
                | Some px_dz \<Rightarrow>
               (case bitunpack_u8 (drop (unat (off_side hdr)) src) n of
                  None \<Rightarrow> Inl UndefinedBehaviour
                | Some side \<Rightarrow>
               (case bitunpack_u8 (drop (unat (off_type hdr)) src) n of
                  None \<Rightarrow> Inl UndefinedBehaviour
                | Some type \<Rightarrow>
               (case decode_rows hdr ts_delta px_dz side type (drop (unat (off_sz hdr)) src) rows1 of
                  Inl e \<Rightarrow> Inl e
                | Inr rows2 \<Rightarrow>
                    let end_off = max (off_ts hdr + len_ts hdr)
                                 (max (off_px hdr + len_px hdr)
                                 (max (off_sz hdr + len_sz hdr)
                                 (max (off_side hdr + len_side hdr)
                                      (off_type hdr + len_type hdr))))
                    in Inr (max (unat end_off) sizeof_BlockHeader, rows2))))))
        else Inl BadMagic)"

section \<open>Properties of the schema registry\<close>

text \<open>
  Claim C9. For every schema of the registry (L2 with 4 columns, L3 with 6, Imbalance
  with 2, VWAP with 2, VOI with 3) the column-file header occupies exactly 256 bytes:
  the trailing pad has \<open>200 - 16 * COLS\<close> bytes, so it absorbs the \<open>16 * COLS\<close> bytes of
  the per-column offset and size arrays.
\<close>

theorem ColFileHeaderT_size_256:
  "sizeof_ColFileHeaderT s = 256 \<and> pad_len (COLS s) + 16 * int (COLS s) = 200
     \<and> COLS L2Schema = 4 \<and> COLS L3Schema = 6 \<and> COLS ImbalanceSchema = 2
     \<and> COLS VwapSchema = 2 \<and> COLS VoiSchema = 3"
  by (cases s)
    (simp_all add: sizeof_ColFileHeaderT_def ColFileHeaderT_members_def pad_len_def round_up_def)

section \<open>Evaluation lemmas\<close>

lemma upt_0_4: "[0..<4] = [0, 1, 2, 3::nat]"
  by code_simp

lemma replicate_4: "replicate 4 x = [x, x, x, x]"
  by (simp add: numeral_eq_Suc)

lemma dec_digits_numeral:
  "dec_digits (numeral k) v = dec_digits (pred_numeral k) (v div 10) @ [digit_char (v mod 10)]"
proof -
  have "(numeral k :: nat) = Suc (pred_numeral k)" by (rule numeral_eq_Suc)
  then show ?thesis by (simp only: dec_digits.simps)
qed






lemmas writer_defs = process_row_def rotate_to_day_def update_rows_in_header_def close_file_def
  open_day_file_def write_at_def write_row_to_cols_def store_elem_def after_write_def
  new_writer_def L2_def hour_of_ts_def day_from_hour_def rows_per_hr_def HEADER_SZ_def
  zero_hdr_def empty_file_def map_file_def write_header_def grow_file_def
  read_col_def store_bytes_def le_bytes_def

section \<open>Properties of the block reader's file list\<close>

text \<open>
  Claim C2 says that the block reader lists the files \<open>*.blocks\<close> of the directory
  \<open><base_dir>/<product>-BLOCKS\<close>, so that it visits every file the block writer
  produced for a date in range. \<open>build_day_file_list\<close> lists the directory
  \<open><base_dir>/<product>\<close> and keeps the names with extension \<open>.bin\<close>: the file the
  block writer creates for 2024-01-01 is not listed by a reader with the same base
  directory and product and the widest date range, and not even by a reader that is
  given the writer's directory as its product.
\<close>

theorem block_reader_skips_block_writer_file:
  "block_file_path \<lparr>w_base_dir = ''data'', w_product = ''BTC'', fsync_every_blocks = 0,
       block_rows = 8192\<rparr> 20240101 = (''data/BTC-BLOCKS'', ''20240101.blocks'')
   \<and> build_day_file_list
       \<lparr>base_dir = ''data'', product = ''BTC'', date_from = 0, date_to = 99999999\<rparr>
       ((\<lambda>_. None)(''data/BTC-BLOCKS'' := Some [(''20240101.blocks'', True)])) = []
   \<and> build_day_file_list
       \<lparr>base_dir = ''data'', product = ''BTC-BLOCKS'', date_from = 0, date_to = 99999999\<rparr>
       ((\<lambda>_. None)(''data/BTC-BLOCKS'' := Some [(''20240101.blocks'', True)])) = []
   \<and> parse_yyyymmdd ''20240101.blocks'' = None"
  by (simp add: block_file_path_def date_string_def dec_digits_numeral digit_char_def
      build_day_file_list_def path_append_def keep_entry_def extension_def
      List.map_filter_simps parse_yyyymmdd_def from_chars_u32_def is_digit_def digit_val_def)

section \<open>Properties of the columnar writer\<close>

subsection \<open>Column offsets\<close>






subsection \<open>Stores of a row\<close>

text \<open>The bytes of the file after the stores of the columns \<open>cs\<close> of a row at \<open>idx\<close>.\<close>

lemma store_cols_ok:
  assumes "w_mapped w" and "w_fd w = Some d" and "w_files w d = Some f"
    and "\<And>c. c \<in> set cs \<Longrightarrow>
           \<exists>p. w_col_ptrs w ! c = Some p \<and> p + idx * S_col_size S c + S_col_size S c \<le> w_map_bytes w"
  shows "store_cols S row idx cs w =
           Inr (w\<lparr>w_files := (w_files w)(d := Some (f\<lparr>f_data :=
              foldl (\<lambda>m c. store_bytes m (the (w_col_ptrs w ! c) + idx * S_col_size S c) (S_col_bytes S row c))
                (f_data f) cs\<rparr>))\<rparr>)"
  using assms
proof (induction cs arbitrary: w f)
  case Nil
  have "(w_files w)(d := Some (f\<lparr>f_data := f_data f\<rparr>)) = w_files w"
    using Nil.prems(3) by (simp add: fun_upd_idem)
  then show ?case by simp
next
  case (Cons c cs)
  from Cons.prems(4) [of c] obtain p where p: "w_col_ptrs w ! c = Some p"
    and le: "p + idx * S_col_size S c + S_col_size S c \<le> w_map_bytes w" by auto
  define f' where "f' = f\<lparr>f_data := store_bytes (f_data f) (p + idx * S_col_size S c) (S_col_bytes S row c)\<rparr>"
  define w' where "w' = w\<lparr>w_files := (w_files w)(d := Some f')\<rparr>"
  have step: "store_elem S row idx c w = Inr w'"
    using p le Cons.prems(1-3) by (simp add: store_elem_def map_file_def w'_def f'_def Let_def)
  have "store_cols S row idx cs w' =
           Inr (w'\<lparr>w_files := (w_files w')(d := Some (f'\<lparr>f_data :=
              foldl (\<lambda>m c. store_bytes m (the (w_col_ptrs w' ! c) + idx * S_col_size S c) (S_col_bytes S row c))
                (f_data f') cs\<rparr>))\<rparr>)"
  proof (rule Cons.IH)
    show "w_mapped w'" using Cons.prems(1) by (simp add: w'_def)
    show "w_fd w' = Some d" using Cons.prems(2) by (simp add: w'_def)
    show "w_files w' d = Some f'" by (simp add: w'_def)
    show "\<exists>p. w_col_ptrs w' ! c' = Some p \<and> p + idx * S_col_size S c' + S_col_size S c' \<le> w_map_bytes w'"
      if "c' \<in> set cs" for c'
      using Cons.prems(4) [of c'] that by (simp add: w'_def)
  qed
  moreover have "w_col_ptrs w' = w_col_ptrs w" by (simp add: w'_def)
  moreover have "\<And>F. w'\<lparr>w_files := F\<rparr> = w\<lparr>w_files := F\<rparr>" by (simp add: w'_def)
  moreover have "\<And>Y. (w_files w')(d := Y) = (w_files w)(d := Y)" by (simp add: w'_def)
  moreover have "\<And>G. f'\<lparr>f_data := G\<rparr> = f\<lparr>f_data := G\<rparr>" by (simp add: f'_def)
  moreover have "f_data f' = store_bytes (f_data f) (the (w_col_ptrs w ! c) + idx * S_col_size S c) (S_col_bytes S row c)"
    using p by (simp add: f'_def)
  ultimately show ?case
    using step by (simp del: fun_upd_apply)
qed



subsection \<open>Rotation\<close>















subsection \<open>Growing the file\<close>

lemma map_file_data:
  assumes "\<And>f. f_data (g f) = f_data f"
  shows "map_option f_data (w_files (map_file g w) d) = map_option f_data (w_files w d)"
  using assms by (simp add: map_file_def split: option.splits)

text \<open>
  What a successful grow does: the capacity doubles, the column pointers are those of the
  doubled column regions, the row counter and the bytes of every file stay as they are.
\<close>

lemma grow_file_effect:
  assumes "e_fallocate env" "e_mmap env"
  shows "\<exists>w'. grow_file S env w = Inr (True, w')
           \<and> w_rows w' = w_rows w \<and> w_capacity w' = w_capacity w * 2
           \<and> w_col_ptrs w' = map Some (col_offsets HEADER_SZ
                 (map (\<lambda>i. w_capacity w * 2 * S_col_size S i) [0..<S_COLS S]))
           \<and> (\<forall>d. map_option f_data (w_files w' d) = map_option f_data (w_files w d))"
proof -
  let ?sz = "map (\<lambda>i. w_capacity w * 2 * S_col_size S i) [0..<S_COLS S]"
  let ?w1 = "w\<lparr>w_col_sz := ?sz, w_mapped := False\<rparr>"
  let ?w2 = "(map_file (\<lambda>f. f\<lparr>f_bytes := max (f_bytes f) (HEADER_SZ + sum_list ?sz)\<rparr>) ?w1)
               \<lparr>w_map_bytes := HEADER_SZ + sum_list ?sz\<rparr>"
  let ?hdr = "(w_hdr ?w2)\<lparr>h_capacity := w_capacity w * 2, h_col_off := col_offsets HEADER_SZ ?sz,
                h_col_sz := map (S_col_size S) [0..<S_COLS S]\<rparr>"
  let ?w3 = "?w2\<lparr>w_base := True, w_mapped := True, w_capacity := w_capacity w * 2,
               w_hdr := ?hdr, w_col_off := col_offsets HEADER_SZ ?sz,
               w_col_ptrs := map Some (col_offsets HEADER_SZ ?sz)\<rparr>"
  let ?w4 = "map_file (\<lambda>f. f\<lparr>f_header := w_hdr ?w3\<rparr>) ?w3"
  have g: "grow_file S env w = Inr (True, ?w4)"
    using assms by (simp add: grow_file_def Let_def write_header_def)
  have c: "w_rows ?w4 = w_rows w" "w_capacity ?w4 = w_capacity w * 2"
      "w_col_ptrs ?w4 = map Some (col_offsets HEADER_SZ ?sz)"
    by (simp_all add: map_file_def split: option.splits)
  have d: "map_option f_data (w_files ?w4 d) = map_option f_data (w_files w d)" for d
  proof -
    have "map_option f_data (w_files ?w4 d) = map_option f_data (w_files ?w3 d)"
      by (rule map_file_data) simp
    also have "w_files ?w3 = w_files (map_file (\<lambda>f. f\<lparr>f_bytes := max (f_bytes f) (HEADER_SZ + sum_list ?sz)\<rparr>) ?w1)"
      by simp
    also have "map_option f_data (\<dots> d) = map_option f_data (w_files ?w1 d)"
      by (rule map_file_data) simp
    finally show ?thesis by simp
  qed
  from g c d show ?thesis by blast
qed

lemma store_bytes_same:
  assumes "\<And>k. k < length bs \<Longrightarrow> bs ! k = m (a + k)"
  shows "store_bytes m a bs = m"
proof
  fix x
  show "store_bytes m a bs x = m x"
  proof (cases "a \<le> x \<and> x < a + length bs")
    case True
    then have "x - a < length bs" "a + (x - a) = x" by linarith+
    with assms [of "x - a"] True show ?thesis by (simp add: store_bytes_def)
  next
    case False
    then show ?thesis by (auto simp add: store_bytes_def)
  qed
qed

lemma le_bytes_0: "le_bytes n (0 :: 'a::len word) = replicate n 0"
  by (simp add: le_bytes_def map_replicate_const)

text \<open>
  The L2 writer after the row with price 1 and then \<open>j - 1\<close> rows of zeros, all of day 0:
  only the row counter tells the states apart, the rows of zeros leave the zero bytes of
  the fresh file as they are.
\<close>

lemma zero_row_step:
  fixes env :: sys_env and lt :: "int \<Rightarrow> tm option"
  defines "w0 \<equiv> projr (process_row L2 0 \<lparr>e_mkdir = True, e_open = True, e_fallocate = True, e_mmap = True, e_localtime = lt\<rparr>
             \<lparr>l2_ts_ns = 0, l2_price = 1, l2_qty = 0, l2_side = 0\<rparr> (new_writer L2))"
  assumes j: "1 \<le> j" "j < 2 ^ 25"
  shows "process_row L2 0 env \<lparr>l2_ts_ns = 0, l2_price = 0, l2_qty = 0, l2_side = 0\<rparr> (w0\<lparr>w_rows := j\<rparr>)
           = Inr (w0\<lparr>w_rows := j + 1\<rparr>)"
proof -
  let ?z = "\<lparr>l2_ts_ns = 0, l2_price = 0, l2_qty = 0, l2_side = 0\<rparr>"
  let ?nm = "WriterT_date_string \<lparr>e_mkdir = True, e_open = True, e_fallocate = True, e_mmap = True, e_localtime = lt\<rparr> 0 @ ''.bin''"
  let ?D = "\<lambda>x :: nat. if x = 268435712 then 1 else 0 :: u8"
  have j': "j < 33554432" using j by simp
  have f: "w_day_start w0 = 0" "w_mapped w0" "w_capacity w0 = 33554432"
    "w_fd w0 = Some (WriterT_date_string \<lparr>e_mkdir = True, e_open = True, e_fallocate = True, e_mmap = True, e_localtime = lt\<rparr> 0 @ ''.bin'')"
    "w_map_bytes w0 = 570425600"
    "w_col_ptrs w0 = [Some 256, Some 268435712, Some 402653440, Some 536871168]"
    by (simp_all add: w0_def writer_defs Let_def upt_0_4 replicate_4)
  have "\<exists>f. w_files w0 ?nm = Some f \<and> f_data f = ?D"
    by (auto simp add: w0_def writer_defs Let_def upt_0_4 replicate_4 fun_eq_iff nth_Cons' )
  then obtain f0 where f0: "w_files w0 ?nm = Some f0" "f_data f0 = ?D" by blast
  let ?w1 = "w0\<lparr>w_rows := j + 1\<rparr>"
  let ?a = "\<lambda>c. the (w_col_ptrs ?w1 ! c) + j * S_col_size L2 c"
  have st: "store_cols L2 ?z j [0..<S_COLS L2] ?w1 =
      Inr (?w1\<lparr>w_files := (w_files ?w1)(?nm := Some (f0\<lparr>f_data :=
         foldl (\<lambda>m c. store_bytes m (?a c) (S_col_bytes L2 ?z c)) (f_data f0) [0..<S_COLS L2]\<rparr>))\<rparr>)"
  proof (rule store_cols_ok)
    show "w_mapped ?w1" "w_fd ?w1 = Some ?nm" "w_files ?w1 ?nm = Some f0" by (simp_all add: f f0)
    fix c assume "c \<in> set [0..<S_COLS L2]"
    then have "c = 0 \<or> c = 1 \<or> c = 2 \<or> c = 3" by (auto simp add: L2_def)
    then show "\<exists>p. w_col_ptrs ?w1 ! c = Some p \<and> p + j * S_col_size L2 c + S_col_size L2 c \<le> w_map_bytes ?w1"
      using j' by (auto simp add: f L2_def)
  qed
  have same: "foldl (\<lambda>m c. store_bytes m (?a c) (S_col_bytes L2 ?z c)) (f_data f0) [0..<S_COLS L2] = f_data f0"
  proof -
    have s: "store_bytes ?D (?a c) (S_col_bytes L2 ?z c) = ?D" if "c < 4" for c
    proof (rule store_bytes_same)
      fix k assume "k < length (S_col_bytes L2 ?z c)"
      moreover from that have "c = 0 \<or> c = 1 \<or> c = 2 \<or> c = 3" by auto
      ultimately show "S_col_bytes L2 ?z c ! k = ?D (?a c + k)"
        using j j' by (auto simp add: f L2_def le_bytes_0)
    qed
    show ?thesis
      by (simp add: f0 L2_def upt_0_4 s [of 0, simplified L2_def, simplified]
          s [of 1, simplified L2_def, simplified] s [of 2, simplified L2_def, simplified]
          s [of 3, simplified L2_def, simplified])
  qed
  have "(w_files ?w1)(?nm := Some (f0\<lparr>f_data := f_data f0\<rparr>)) = w_files ?w1"
    using f0(1) by (simp add: fun_upd_idem)
  with st same have "write_row_to_cols L2 ?z j ?w1 = Inr ?w1"
    by (simp add: write_row_to_cols_def)
  moreover have "day_from_hour (S_hour_from_row L2 ?z) = w_day_start (w0\<lparr>w_rows := j\<rparr>)"
    by (simp add: f L2_def hour_of_ts_def day_from_hour_def)
  ultimately show ?thesis
    using j' by (simp add: process_row_def write_at_def Let_def f after_write_def)
qed

lemma zero_rows_run:
  fixes env :: sys_env and lt :: "int \<Rightarrow> tm option"
  defines "w0 \<equiv> projr (process_row L2 0 \<lparr>e_mkdir = True, e_open = True, e_fallocate = True, e_mmap = True, e_localtime = lt\<rparr>
             \<lparr>l2_ts_ns = 0, l2_price = 1, l2_qty = 0, l2_side = 0\<rparr> (new_writer L2))"
  assumes "1 \<le> j" "j + k \<le> 2 ^ 25"
  shows "run_rows L2 0 (replicate k (env, \<lparr>l2_ts_ns = 0, l2_price = 0, l2_qty = 0, l2_side = 0\<rparr>))
           (w0\<lparr>w_rows := j\<rparr>) = Inr (w0\<lparr>w_rows := j + k\<rparr>)"
  using assms(2,3)
proof (induction k arbitrary: j)
  case 0
  then show ?case by simp
next
  case (Suc k)
  from Suc.prems have "j < 2 ^ 25" by simp
  from zero_row_step [where env = env and lt = lt, OF Suc.prems(1) this, folded w0_def]
  have "process_row L2 0 env \<lparr>l2_ts_ns = 0, l2_price = 0, l2_qty = 0, l2_side = 0\<rparr> (w0\<lparr>w_rows := j\<rparr>)
          = Inr (w0\<lparr>w_rows := j + 1\<rparr>)" .
  moreover have "run_rows L2 0 (replicate k (env, \<lparr>l2_ts_ns = 0, l2_price = 0, l2_qty = 0, l2_side = 0\<rparr>))
           (w0\<lparr>w_rows := j + 1\<rparr>) = Inr (w0\<lparr>w_rows := (j + 1) + k\<rparr>)"
    using Suc.prems by (intro Suc.IH) simp_all
  ultimately show ?case by simp
qed

text \<open>
  The day file is full after \<open>2^25\<close> rows of one day: the row with price 1 and then rows
  of zeros.
\<close>

lemma full_day_file:
  "\<exists>w0. process_row L2 0 \<lparr>e_mkdir = True, e_open = True, e_fallocate = True, e_mmap = True, e_localtime = lt\<rparr>
           \<lparr>l2_ts_ns = 0, l2_price = 1, l2_qty = 0, l2_side = 0\<rparr> (new_writer L2) = Inr w0
     \<and> run_rows L2 0
         ((\<lparr>e_mkdir = True, e_open = True, e_fallocate = True, e_mmap = True, e_localtime = lt\<rparr>,
           \<lparr>l2_ts_ns = 0, l2_price = 1, l2_qty = 0, l2_side = 0\<rparr>)
          # replicate (2 ^ 25 - 1)
              (\<lparr>e_mkdir = True, e_open = True, e_fallocate = True, e_mmap = True, e_localtime = lt\<rparr>,
               \<lparr>l2_ts_ns = 0, l2_price = 0, l2_qty = 0, l2_side = 0\<rparr>))
         (new_writer L2)
       = Inr (w0\<lparr>w_rows := w_capacity w0\<rparr>)"
proof -
  define w0 where "w0 = projr (process_row L2 0 \<lparr>e_mkdir = True, e_open = True, e_fallocate = True, e_mmap = True, e_localtime = lt\<rparr>
             \<lparr>l2_ts_ns = 0, l2_price = 1, l2_qty = 0, l2_side = 0\<rparr> (new_writer L2))"
  have p: "process_row L2 0 \<lparr>e_mkdir = True, e_open = True, e_fallocate = True, e_mmap = True, e_localtime = lt\<rparr>
           \<lparr>l2_ts_ns = 0, l2_price = 1, l2_qty = 0, l2_side = 0\<rparr> (new_writer L2) = Inr w0"
    and r: "w0\<lparr>w_rows := 1\<rparr> = w0" and c: "w_capacity w0 = 2 ^ 25"
    by (simp_all add: w0_def writer_defs Let_def upt_0_4 replicate_4)
  have "run_rows L2 0 (replicate (2 ^ 25 - 1)
              (\<lparr>e_mkdir = True, e_open = True, e_fallocate = True, e_mmap = True, e_localtime = lt\<rparr>,
               \<lparr>l2_ts_ns = 0, l2_price = 0, l2_qty = 0, l2_side = 0\<rparr>))
          (w0\<lparr>w_rows := 1\<rparr>) = Inr (w0\<lparr>w_rows := 1 + (2 ^ 25 - 1)\<rparr>)"
    unfolding w0_def by (rule zero_rows_run) simp_all
  then have "run_rows L2 0 (replicate (2 ^ 25 - 1)
              (\<lparr>e_mkdir = True, e_open = True, e_fallocate = True, e_mmap = True, e_localtime = lt\<rparr>,
               \<lparr>l2_ts_ns = 0, l2_price = 0, l2_qty = 0, l2_side = 0\<rparr>))
          w0 = Inr (w0\<lparr>w_rows := 2 ^ 25\<rparr>)"
    unfolding r by simp
  then show ?thesis using p c by simp
qed

text \<open>
  Claim C3 says that after a successful grow every row written before it reads back
  unchanged through the new column pointers, and that the row counter is unchanged.
  \<open>grow_file\<close> enlarges the file and moves the column offsets to those of the doubled
  capacity, but the bytes of the file stay where they were. The L2 writer is run on
  \<open>2^25\<close> rows of day 0, the first of price 1 and the others zero: the day file is full,
  and the price of row 0 reads 1. After \<open>grow_file\<close>, called on its own or by \<open>run\<close> for the
  next row, the price of row 0 reads 0; only column 0, whose offset is the header size,
  is preserved. The row counter is not changed by the grow. The time zone \<open>lt\<close> of the
  host, which gives the file its name, is arbitrary.
\<close>

theorem grow_file_loses_columns:
  "\<exists>w0 w wg w'.
     process_row L2 0 \<lparr>e_mkdir = True, e_open = True, e_fallocate = True, e_mmap = True, e_localtime = lt\<rparr>
       \<lparr>l2_ts_ns = 0, l2_price = 1, l2_qty = 0, l2_side = 0\<rparr> (new_writer L2) = Inr w0
     \<and> w = w0\<lparr>w_rows := w_capacity w0\<rparr>
     \<and> run_rows L2 0
         ((\<lparr>e_mkdir = True, e_open = True, e_fallocate = True, e_mmap = True, e_localtime = lt\<rparr>,
           \<lparr>l2_ts_ns = 0, l2_price = 1, l2_qty = 0, l2_side = 0\<rparr>)
          # replicate (2 ^ 25 - 1)
              (\<lparr>e_mkdir = True, e_open = True, e_fallocate = True, e_mmap = True, e_localtime = lt\<rparr>,
               \<lparr>l2_ts_ns = 0, l2_price = 0, l2_qty = 0, l2_side = 0\<rparr>))
         (new_writer L2) = Inr w
     \<and> w_rows w = 2 ^ 25 \<and> w_capacity w = 2 ^ 25
     \<and> read_col L2 w 1 0 = Some [1, 0, 0, 0]
     \<and> grow_file L2 \<lparr>e_mkdir = True, e_open = True, e_fallocate = True, e_mmap = True, e_localtime = lt\<rparr> w
           = Inr (True, wg)
     \<and> w_rows wg = w_rows w
     \<and> w_capacity wg = 2 ^ 26
     \<and> read_col L2 wg 0 0 = read_col L2 w 0 0
     \<and> read_col L2 wg 1 0 = Some [0, 0, 0, 0]
     \<and> process_row L2 0 \<lparr>e_mkdir = True, e_open = True, e_fallocate = True, e_mmap = True, e_localtime = lt\<rparr>
           \<lparr>l2_ts_ns = 0, l2_price = 0, l2_qty = 0, l2_side = 0\<rparr> w = Inr w'
     \<and> w_rows w' = 2 ^ 25 + 1
     \<and> w_dropped w' = 0
     \<and> read_col L2 w' 1 0 = Some [0, 0, 0, 0]"
proof -
  from full_day_file obtain w0 where
    p: "process_row L2 0 \<lparr>e_mkdir = True, e_open = True, e_fallocate = True, e_mmap = True, e_localtime = lt\<rparr>
           \<lparr>l2_ts_ns = 0, l2_price = 1, l2_qty = 0, l2_side = 0\<rparr> (new_writer L2) = Inr w0"
    and r: "run_rows L2 0
         ((\<lparr>e_mkdir = True, e_open = True, e_fallocate = True, e_mmap = True, e_localtime = lt\<rparr>,
           \<lparr>l2_ts_ns = 0, l2_price = 1, l2_qty = 0, l2_side = 0\<rparr>)
          # replicate (2 ^ 25 - 1)
              (\<lparr>e_mkdir = True, e_open = True, e_fallocate = True, e_mmap = True, e_localtime = lt\<rparr>,
               \<lparr>l2_ts_ns = 0, l2_price = 0, l2_qty = 0, l2_side = 0\<rparr>))
         (new_writer L2) = Inr (w0\<lparr>w_rows := w_capacity w0\<rparr>)"
    by blast
  define w where "w = w0\<lparr>w_rows := w_capacity w0\<rparr>"
  have w0: "w0 = projr (process_row L2 0 \<lparr>e_mkdir = True, e_open = True, e_fallocate = True, e_mmap = True, e_localtime = lt\<rparr>
           \<lparr>l2_ts_ns = 0, l2_price = 1, l2_qty = 0, l2_side = 0\<rparr> (new_writer L2))"
    by (simp add: p)
  have rest: "\<exists>wg w'. w_rows w = 2 ^ 25 \<and> w_capacity w = 2 ^ 25
     \<and> read_col L2 w 1 0 = Some [1, 0, 0, 0]
     \<and> grow_file L2 \<lparr>e_mkdir = True, e_open = True, e_fallocate = True, e_mmap = True, e_localtime = lt\<rparr> w
           = Inr (True, wg)
     \<and> w_rows wg = w_rows w
     \<and> w_capacity wg = 2 ^ 26
     \<and> read_col L2 wg 0 0 = read_col L2 w 0 0
     \<and> read_col L2 wg 1 0 = Some [0, 0, 0, 0]
     \<and> process_row L2 0 \<lparr>e_mkdir = True, e_open = True, e_fallocate = True, e_mmap = True, e_localtime = lt\<rparr>
           \<lparr>l2_ts_ns = 0, l2_price = 0, l2_qty = 0, l2_side = 0\<rparr> w = Inr w'
     \<and> w_rows w' = 2 ^ 25 + 1
     \<and> w_dropped w' = 0
     \<and> read_col L2 w' 1 0 = Some [0, 0, 0, 0]"
    unfolding w_def w0
    by (simp add: writer_defs Let_def upt_0_4 replicate_4)
  from p r rest show ?thesis unfolding w_def by blast
qed

text \<open>
  Claim C4 says that after a failed rotation every further row of that day is counted
  as dropped and nothing is written, until a rotation succeeds. \<open>rotate_to_day\<close> sets
  \<open>day_start_\<close> before it opens the file, so after a failed open the next row of the
  same day asks for no rotation: it is not counted as dropped, and \<open>run\<close> stores it
  through the column pointers, which are null. The time zone \<open>lt\<close> of the host is
  arbitrary.
\<close>

theorem failed_rotation_then_null_write:
  "\<exists>w. process_row L2 0 \<lparr>e_mkdir = True, e_open = False, e_fallocate = True, e_mmap = True, e_localtime = lt\<rparr>
         \<lparr>l2_ts_ns = 86400000000000, l2_price = 10000, l2_qty = 0, l2_side = 1\<rparr>
         (new_writer L2) = Inr w
     \<and> w_dropped w = 1 \<and> w_rows w = 0 \<and> w_fd w = None \<and> w_day_start w = 86400
     \<and> process_row L2 0 \<lparr>e_mkdir = True, e_open = True, e_fallocate = True, e_mmap = True, e_localtime = lt\<rparr>
         \<lparr>l2_ts_ns = 86400000000500, l2_price = 10001, l2_qty = 0, l2_side = 0\<rparr> w
         = Inl NullPointerWrite"
  by (simp add: writer_defs Let_def upt_0_4 replicate_4)

section \<open>Properties of the bit packers\<close>

text \<open>
  Claim C7 says that \<open>bitunpack_u64\<close> inverts \<open>bitpack_u64\<close> for every width from 0 to 64.
  The accumulator of \<open>bitpack_u64\<close> has 64 bits and holds up to 7 buffered bits when the
  next value is shifted in, so a value wider than 57 bits can lose its top bits: at
  width 61 the list \<open>[0, 2^60]\<close> (both elements below \<open>2^61\<close>) is packed into sixteen zero
  bytes, which unpack to \<open>[0, 0]\<close>. For the widths from 0 to 57 the round trip holds
  (lemma \<open>bitunpack_u64_bitpack_u64\<close> below), and so does that of the 32-bit packer for
  its widths from 0 to 32 (lemma \<open>bitunpack_u32_bitpack_u32\<close>).
\<close>

theorem bitpack_u64_width_61_loses_value:
  "bitpack_u64 [0, 2 ^ 60] 61 [] = replicate 16 0
   \<and> bitunpack_u64 (bitpack_u64 [0, 2 ^ 60] 61 []) 2 61 = Some [0, 0]"
  by code_simp

section \<open>Properties of \<open>decode_block\<close>\<close>

text \<open>\<open>check_magic\<close> is consulted once, before anything is decoded.\<close>

lemma decode_block_check_magic:
  "decode_block cm src rows_out =
     (if length src < sizeof_BlockHeader then Inl BlockTooSmall
      else if cm (read_header src) then decode_block (\<lambda>_. True) src rows_out
      else Inl BadMagic)"
  by (simp add: decode_block_def Let_def)

lemma encode_block_example:
  "encode_block
     [\<lparr>r_ts_ns = 5000000, r_ts_ts = 0, r_price = 100, r_size = 7, r_side = 1,
        r_type = CHR ''T''\<rparr>] []
   = [0, 0, 0, 0, 0, 0, 0, 0, 1, 0, 0, 0, 1, 0, 0, 0, 64, 75, 76, 0, 0, 0, 0, 0,
      100, 0, 0, 0, 64, 66, 15, 0, 1, 1, 0, 0, 76, 0, 0, 0, 1, 0, 0, 0, 77, 0,
      0, 0, 1, 0, 0, 0, 78, 0, 0, 0, 4, 0, 0, 0, 82, 0, 0, 0, 1, 0, 0, 0, 83, 0,
      0, 0, 1, 0, 0, 0, 0, 0, 7, 0, 0, 0, 1, 1]"
  by code_simp

lemma decode_block_example:
  "decode_block (\<lambda>_. True)
     [0, 0, 0, 0, 0, 0, 0, 0, 1, 0, 0, 0, 1, 0, 0, 0, 64, 75, 76, 0, 0, 0, 0, 0,
      100, 0, 0, 0, 64, 66, 15, 0, 1, 1, 0, 0, 76, 0, 0, 0, 1, 0, 0, 0, 77, 0,
      0, 0, 1, 0, 0, 0, 78, 0, 0, 0, 4, 0, 0, 0, 82, 0, 0, 0, 1, 0, 0, 0, 83, 0,
      0, 0, 1, 0, 0, 0, 0, 0, 7, 0, 0, 0, 1, 1] []
   = Inr (84, [\<lparr>r_ts_ns = 0, r_ts_ts = 5000000, r_price = 0, r_size = 7, r_side = 1,
                 r_type = CHR ''T''\<rparr>])"
  by code_simp

text \<open>
  Claim C1 says that decoding an encoded block gives the rows back, the price of each
  row rebuilt from the price column that the header records. \<open>decode_block\<close> reads the
  price deltas at \<open>src + hdr.len_px\<close> instead of \<open>src + hdr.off_px\<close>, uses them for the
  overflow test only, never stores a price, and stores the timestamp into \<open>ts_ts\<close>, not
  \<open>ts_ns\<close>. A block of the single row with \<open>ts_ns = 5000000\<close> and \<open>price = 100\<close> decodes
  (into an empty vector, and whenever \<open>check_magic\<close> accepts the header) to a row with
  \<open>ts_ns = 0\<close> and \<open>price = 0\<close>.
\<close>

theorem decode_encode_loses_price:
  "decode_block check_magic
     (encode_block
       [\<lparr>r_ts_ns = 5000000, r_ts_ts = 0, r_price = 100, r_size = 7, r_side = 1,
          r_type = CHR ''T''\<rparr>] [])
     []
   = (if check_magic
          (read_header (encode_block
             [\<lparr>r_ts_ns = 5000000, r_ts_ts = 0, r_price = 100, r_size = 7, r_side = 1,
                r_type = CHR ''T''\<rparr>] []))
      then Inr (84, [\<lparr>r_ts_ns = 0, r_ts_ts = 5000000, r_price = 0, r_size = 7, r_side = 1,
                       r_type = CHR ''T''\<rparr>])
      else Inl BadMagic)"
  by (subst decode_block_check_magic)
    (simp add: encode_block_example decode_block_example sizeof_BlockHeader_def)

text \<open>
  The price test of \<open>decode_block\<close> compares \<open>uint64_t px = hdr.base_px + dx\<close>, a 32-bit
  sum widened to 64 bits, with 0 and with the largest \<open>uint32_t\<close>: it never fires.
\<close>

lemma ucast_u32_le: "(ucast (w :: u32) :: u64) \<le> 0xffffffff"
proof -
  have lt: "unat w < 2 ^ 32" using unsigned_less [of w, where ?'a = nat] by simp
  then have "unat w < 2 ^ 64" by simp
  then have "unat (ucast w :: u64) = unat w"
    by (simp add: unsigned_ucast_eq take_bit_nat_eq_self)
  with lt show ?thesis by (simp add: word_le_nat_alt)
qed

lemma price_check_dead: "\<not> ((ucast (w :: u32) :: u64) < 0 \<or> (ucast w :: u64) > 0xffffffff)"
  using ucast_u32_le [of w] by (simp add: not_less)

lemma decode_rows_no_overflow:
  "decode_rows hdr us zs ss ts p_sz rs \<noteq> Inl PriceOverflow"
proof (induction hdr us zs ss ts p_sz rs rule: decode_rows.induct)
  case (1 hdr u us z zs s ss t ts p_sz r rs)
  then show ?case
    using price_check_dead [of "base_px hdr + zigzag_dec32 z"]
    by (auto simp add: Let_def split: sum.splits)
qed simp_all

lemma decode_block_never_price_overflow:
  "decode_block check_magic src rows_out \<noteq> Inl PriceOverflow"
  using decode_rows_no_overflow
  by (auto simp add: decode_block_def Let_def split: option.splits sum.splits if_splits)

lemma price_overflow_block:
  "header_bytes
     \<lparr>magic = [0, 0, 0, 0, 0, 0, 0, 0], version = 1, flags = 0, n_rows = 1, base_ts = 0,
        base_px = 0, ts_scale_ns = 1000000, ts_bw = 0, px_bw = 1, reserved0 = 0,
        off_ts = 76, len_ts = 0, off_px = 76, len_px = 76, off_sz = 152, len_sz = 4,
        off_side = 156, len_side = 1, off_type = 157, len_type = 1\<rparr>
     @ [1] @ replicate 75 0 @ [0, 0, 0, 0] @ [0] @ [0]
   = [0, 0, 0, 0, 0, 0, 0, 0, 1, 0, 0, 0, 1, 0, 0, 0, 0, 0, 0, 0, 0, 0, 0, 0, 0, 0, 0, 0,
      64, 66, 15, 0, 0, 1, 0, 0, 76, 0, 0, 0, 0, 0, 0, 0, 76, 0, 0, 0, 76, 0, 0, 0,
      152, 0, 0, 0, 4, 0, 0, 0, 156, 0, 0, 0, 1, 0, 0, 0, 157, 0, 0, 0, 1, 0, 0, 0,
      1, 0, 0, 0, 0, 0, 0, 0, 0, 0, 0, 0, 0, 0, 0, 0, 0, 0, 0, 0, 0, 0, 0, 0, 0, 0,
      0, 0, 0, 0, 0, 0, 0, 0, 0, 0, 0, 0, 0, 0, 0, 0, 0, 0, 0, 0, 0, 0, 0, 0, 0, 0,
      0, 0, 0, 0, 0, 0, 0, 0, 0, 0, 0, 0, 0, 0, 0, 0, 0, 0, 0, 0, 0, 0, 0, 0,
      0, 0, 0, 0, 0, 0]"
  by code_simp

lemma price_overflow_block_decoded:
  "bitunpack_u32 (drop 76
     [0, 0, 0, 0, 0, 0, 0, 0, 1, 0, 0, 0, 1, 0, 0, 0, 0, 0, 0, 0, 0, 0, 0, 0, 0, 0, 0, 0,
      64, 66, 15, 0, 0, 1, 0, 0, 76, 0, 0, 0, 0, 0, 0, 0, 76, 0, 0, 0, 76, 0, 0, 0,
      152, 0, 0, 0, 4, 0, 0, 0, 156, 0, 0, 0, 1, 0, 0, 0, 157, 0, 0, 0, 1, 0, 0, 0,
      1, 0, 0, 0, 0, 0, 0, 0, 0, 0, 0, 0, 0, 0, 0, 0, 0, 0, 0, 0, 0, 0, 0, 0, 0, 0,
      0, 0, 0, 0, 0, 0, 0, 0, 0, 0, 0, 0, 0, 0, 0, 0, 0, 0, 0, 0, 0, 0, 0, 0, 0, 0,
      0, 0, 0, 0, 0, 0, 0, 0, 0, 0, 0, 0, 0, 0, 0, 0, 0, 0, 0, 0, 0, 0, 0, 0,
      0, 0, 0, 0, 0, 0]) 1 1 = Some [1]
   \<and> decode_block (\<lambda>_. True)
     [0, 0, 0, 0, 0, 0, 0, 0, 1, 0, 0, 0, 1, 0, 0, 0, 0, 0, 0, 0, 0, 0, 0, 0, 0, 0, 0, 0,
      64, 66, 15, 0, 0, 1, 0, 0, 76, 0, 0, 0, 0, 0, 0, 0, 76, 0, 0, 0, 76, 0, 0, 0,
      152, 0, 0, 0, 4, 0, 0, 0, 156, 0, 0, 0, 1, 0, 0, 0, 157, 0, 0, 0, 1, 0, 0, 0,
      1, 0, 0, 0, 0, 0, 0, 0, 0, 0, 0, 0, 0, 0, 0, 0, 0, 0, 0, 0, 0, 0, 0, 0, 0, 0,
      0, 0, 0, 0, 0, 0, 0, 0, 0, 0, 0, 0, 0, 0, 0, 0, 0, 0, 0, 0, 0, 0, 0, 0, 0, 0,
      0, 0, 0, 0, 0, 0, 0, 0, 0, 0, 0, 0, 0, 0, 0, 0, 0, 0, 0, 0, 0, 0, 0, 0,
      0, 0, 0, 0, 0, 0] []
     = Inr (158, [\<lparr>r_ts_ns = 0, r_ts_ts = 0, r_price = 0, r_size = 0, r_side = 0,
                    r_type = CHR ''L''\<rparr>])
   \<and> sint (zigzag_dec32 1) = - 1"
  by code_simp

text \<open>
  Claim C6 says that \<open>decode_block\<close> raises whenever the rebuilt price
  \<open>base_px + zigzag_dec32(px_zz[i])\<close> of a row is negative or beyond \<open>2^32 - 1\<close>. In the
  block below \<open>base_px\<close> is 0 and the price column (at offset 76, which is also its
  recorded length, so that \<open>src + len_px\<close> and \<open>src + off_px\<close> are the same place) holds the
  zigzag delta 1, that is \<open>-1\<close>: the rebuilt price is \<open>-1\<close>, and \<open>decode_block\<close> returns
  the row without raising.
\<close>

theorem negative_price_not_raised:
  "(let blk = header_bytes
       \<lparr>magic = [0, 0, 0, 0, 0, 0, 0, 0], version = 1, flags = 0, n_rows = 1, base_ts = 0,
          base_px = 0, ts_scale_ns = 1000000, ts_bw = 0, px_bw = 1, reserved0 = 0,
          off_ts = 76, len_ts = 0, off_px = 76, len_px = 76, off_sz = 152, len_sz = 4,
          off_side = 156, len_side = 1, off_type = 157, len_type = 1\<rparr>
       @ [1] @ replicate 75 0 @ [0, 0, 0, 0] @ [0] @ [0]
    in bitunpack_u32 (drop (unat (off_px (read_header blk))) blk) 1 1 = Some [1]
       \<and> uint (base_px (read_header blk)) + sint (zigzag_dec32 1) = - 1
       \<and> decode_block check_magic blk []
           = (if check_magic (read_header blk)
              then Inr (158, [\<lparr>r_ts_ns = 0, r_ts_ts = 0, r_price = 0, r_size = 0, r_side = 0,
                                r_type = CHR ''L''\<rparr>])
              else Inl BadMagic))"
proof -
  have hdr: "read_header
     [0, 0, 0, 0, 0, 0, 0, 0, 1, 0, 0, 0, 1, 0, 0, 0, 0, 0, 0, 0, 0, 0, 0, 0, 0, 0, 0, 0,
      64, 66, 15, 0, 0, 1, 0, 0, 76, 0, 0, 0, 0, 0, 0, 0, 76, 0, 0, 0, 76, 0, 0, 0,
      152, 0, 0, 0, 4, 0, 0, 0, 156, 0, 0, 0, 1, 0, 0, 0, 157, 0, 0, 0, 1, 0, 0, 0,
      1, 0, 0, 0, 0, 0, 0, 0, 0, 0, 0, 0, 0, 0, 0, 0, 0, 0, 0, 0, 0, 0, 0, 0, 0, 0,
      0, 0, 0, 0, 0, 0, 0, 0, 0, 0, 0, 0, 0, 0, 0, 0, 0, 0, 0, 0, 0, 0, 0, 0, 0, 0,
      0, 0, 0, 0, 0, 0, 0, 0, 0, 0, 0, 0, 0, 0, 0, 0, 0, 0, 0, 0, 0, 0, 0, 0,
      0, 0, 0, 0, 0, 0]
    = \<lparr>magic = [0, 0, 0, 0, 0, 0, 0, 0], version = 1, flags = 0, n_rows = 1, base_ts = 0,
        base_px = 0, ts_scale_ns = 1000000, ts_bw = 0, px_bw = 1, reserved0 = 0,
        off_ts = 76, len_ts = 0, off_px = 76, len_px = 76, off_sz = 152, len_sz = 4,
        off_side = 156, len_side = 1, off_type = 157, len_type = 1\<rparr>"
    by code_simp
  show ?thesis
    unfolding Let_def price_overflow_block
    by (subst decode_block_check_magic)
      (use price_overflow_block_decoded in \<open>simp add: hdr sizeof_BlockHeader_def\<close>)
qed

section \<open>Decoding an encoded block\<close>

subsection \<open>Little-endian fields and the header\<close>

lemma length_le_bytes [simp]: "length (le_bytes n w) = n"
  by (simp add: le_bytes_def)

lemma bit_le_word:
  "bit (le_word bs :: 'a::len word) n \<longleftrightarrow>
     n < LENGTH('a) \<and> n div 8 < length bs \<and> bit (bs ! (n div 8)) (n mod 8)"
proof (induction bs arbitrary: n)
  case Nil
  then show ?case by simp
next
  case (Cons b bs)
  have u: "bit (ucast b :: 'a word) n \<longleftrightarrow> n < LENGTH('a) \<and> n < 8 \<and> bit b n"
    using bit_imp_le_length [of b n] by (auto simp add: bit_ucast_iff)
  have p: "bit (push_bit 8 (le_word bs :: 'a word)) n \<longleftrightarrow>
             n < LENGTH('a) \<and> 8 \<le> n \<and> bit (le_word bs :: 'a word) (n - 8)"
    by (auto simp add: bit_push_bit_iff)
  have split: "bit (le_word (b # bs) :: 'a word) n \<longleftrightarrow>
      (n < LENGTH('a) \<and> n < 8 \<and> bit b n)
      \<or> (n < LENGTH('a) \<and> 8 \<le> n \<and> bit (le_word bs :: 'a word) (n - 8))"
    unfolding le_word.simps bit_or_iff u p ..
  show ?case
  proof (cases "n < 8")
    case True
    then have "n div 8 = 0" "n mod 8 = n" by simp_all
    with True show ?thesis unfolding split by simp
  next
    case False
    then obtain m where m: "n = m + 8"
      by (metis add.commute le_add_diff_inverse not_less)
    have dm: "n div 8 = Suc ((n - 8) div 8)" "(n - 8) mod 8 = n mod 8"
      unfolding m by simp_all
    have "bit (le_word bs :: 'a word) (n - 8) \<longleftrightarrow>
        n - 8 < LENGTH('a) \<and> (n - 8) div 8 < length bs \<and> bit (bs ! ((n - 8) div 8)) (n mod 8)"
      unfolding Cons.IH [of "n - 8"] dm ..
    with False show ?thesis unfolding split dm(1) by auto
  qed
qed

lemma le_word_le_bytes:
  fixes w :: "'a::len word"
  assumes "LENGTH('a) \<le> 8 * k"
  shows "le_word (le_bytes k w) = w"
proof (rule bit_word_eqI)
  fix n assume n: "n < LENGTH('a)"
  with assms have k: "n div 8 < k" by (simp add: less_mult_imp_div_less mult.commute)
  have "bit (le_bytes k w ! (n div 8)) (n mod 8) \<longleftrightarrow> bit w n"
    using k by (simp add: le_bytes_def bit_ucast_iff bit_drop_bit_eq)
  with n k show "bit (le_word (le_bytes k w) :: 'a word) n \<longleftrightarrow> bit w n"
    by (simp add: bit_le_word)
qed

lemma le_word_single: "le_word [b] = (b :: u8)"
  by simp

lemma length_header_bytes: "length (header_bytes h) = sizeof_BlockHeader"
  by (simp add: header_bytes_def sizeof_BlockHeader_def)

lemma read_header_header_bytes:
  assumes "length (magic h) = 8"
  shows "read_header (header_bytes h @ rest) = h"
  using assms
  by (simp add: read_header_def header_bytes_def bytes_at_def le_word_le_bytes)

subsection \<open>Byte counts of the packers\<close>

lemma flush_count:
  "flush acc bits = (bs, acc', bits') \<Longrightarrow> length bs = bits div 8 \<and> bits' = bits mod 8"
proof (induction acc bits arbitrary: bs acc' bits' rule: flush.induct)
  case (1 acc bits)
  show ?case
  proof (cases "8 \<le> bits")
    case True
    obtain bs1 acc1 bits1 where r: "flush (drop_bit 8 acc) (bits - 8) = (bs1, acc1, bits1)"
      by (cases "flush (drop_bit 8 acc) (bits - 8)") auto
    from "1.IH" [OF True r] have "length bs1 = (bits - 8) div 8" "bits1 = (bits - 8) mod 8"
      by simp_all
    moreover from "1.prems" True r have "bs = ucast (acc AND 0xff) # bs1" "bits' = bits1"
      by (simp_all add: flush.simps [of acc bits])
    moreover from True obtain m where "bits = m + 8"
      by (metis add.commute le_add_diff_inverse)
    ultimately show ?thesis by simp
  next
    case False
    with "1.prems" show ?thesis by (simp add: flush.simps [of acc bits])
  qed
qed

lemma div_8_split: "(a :: nat) div 8 + (a mod 8 + c) div 8 = (a + c) div 8"
proof -
  have "(a + c) div 8 = (8 * (a div 8) + (a mod 8 + c)) div 8"
    by (simp add: add.assoc [symmetric])
  also have "\<dots> = a div 8 + (a mod 8 + c) div 8"
    by (rule div_mult_self4) simp
  finally show ?thesis by simp
qed

lemma length_pack_loop:
  "bits < 8 \<Longrightarrow> length (pack_loop xs bw msk acc bits) = (bits + length xs * bw + 7) div 8"
proof (induction xs arbitrary: acc bits)
  case Nil
  then show ?case by (cases "bits = 0") auto
next
  case (Cons x xs)
  let ?acc1 = "acc OR push_bit bits (x AND msk)"
  obtain bs acc2 bits2 where f: "flush ?acc1 (bits + bw) = (bs, acc2, bits2)"
    by (cases "flush ?acc1 (bits + bw)") auto
  from flush_count [OF f] have c: "length bs = (bits + bw) div 8" "bits2 = (bits + bw) mod 8"
    by simp_all
  then have "bits2 < 8" by simp
  from Cons.IH [OF this] have "length (pack_loop xs bw msk acc2 bits2) = (bits2 + length xs * bw + 7) div 8" .
  then have "length (pack_loop (x # xs) bw msk acc bits)
      = (bits + bw) div 8 + ((bits + bw) mod 8 + length xs * bw + 7) div 8"
    using f c by (simp add: Let_def)
  also have "\<dots> = (bits + length (x # xs) * bw + 7) div 8"
    using div_8_split [of "bits + bw" "length xs * bw + 7"]
    by (simp add: add.assoc add.commute add.left_commute)
  finally show ?case .
qed

lemma length_bitpack_u64:
  "length (bitpack_u64 vals bw out) = length out + (length vals * bw + 7) div 8"
  by (cases "vals = []") (auto simp add: bitpack_u64_def length_pack_loop)

lemma length_bitpack_u32:
  "length (bitpack_u32 vals bw out) = length out + (length vals * bw + 7) div 8"
  by (cases "vals = []") (auto simp add: bitpack_u32_def length_pack_loop)

lemma bitpack_u64_append: "bitpack_u64 vals bw out = out @ bitpack_u64 vals bw []"
  by (simp add: bitpack_u64_def)

lemma bitpack_u32_append: "bitpack_u32 vals bw out = out @ bitpack_u32 vals bw []"
  by (simp add: bitpack_u32_def)

subsection \<open>The unpackers do not read past the bytes they need\<close>

lemma refill_enough:
  "bw \<le> bits + 8 * length src \<Longrightarrow>
     \<exists>acc' bits' src'. refill bw acc bits src = Some (acc', bits', src')
        \<and> bw \<le> bits' \<and> bits' + 8 * length src' = bits + 8 * length src"
proof (induction src arbitrary: acc bits)
  case Nil
  then show ?case by simp
next
  case (Cons b src)
  show ?case
  proof (cases "bits < bw")
    case True
    have "bw \<le> (bits + 8) + 8 * length src" using Cons.prems by simp
    from Cons.IH [OF this, of "acc OR push_bit bits (ucast b)"] True show ?thesis by auto
  next
    case False
    then show ?thesis by simp
  qed
qed

lemma unpack_loop_enough:
  "n * bw \<le> bits + 8 * length src \<Longrightarrow>
     \<exists>ys. unpack_loop n bw msk acc bits src = Some ys \<and> length ys = n"
proof (induction n arbitrary: acc bits src)
  case 0
  then show ?case by simp
next
  case (Suc n)
  then have "bw \<le> bits + 8 * length src" by (simp add: le_trans [OF le_add1])
  from refill_enough [OF this, of acc] obtain acc' bits' src' where
    r: "refill bw acc bits src = Some (acc', bits', src')" and b: "bw \<le> bits'"
    and c: "bits' + 8 * length src' = bits + 8 * length src" by blast
  from Suc.prems b c have "n * bw \<le> (bits' - bw) + 8 * length src'" by simp
  from Suc.IH [OF this, of "drop_bit bw acc'"] obtain ys where
    "unpack_loop n bw msk (drop_bit bw acc') (bits' - bw) src' = Some ys" "length ys = n" by blast
  with r show ?case by simp
qed

lemma bitunpack_u64_enough:
  "bw < 64 \<Longrightarrow> n * bw \<le> 8 * length src \<Longrightarrow>
     \<exists>ys. bitunpack_u64 src n bw = Some ys \<and> length ys = n"
  using unpack_loop_enough [of n bw 0 src] by (auto simp add: bitunpack_u64_def)

lemma bitunpack_u32_enough:
  "bw < 64 \<Longrightarrow> n * bw \<le> 8 * length src \<Longrightarrow>
     \<exists>ys. bitunpack_u32 src n bw = Some ys \<and> length ys = n"
  using unpack_loop_enough [of n bw 0 src "if bw = 32 then 0xffffffff else push_bit bw 1 - 1" 0]
  by (auto simp add: bitunpack_u32_def)

subsection \<open>The value of the packed bytes\<close>

text \<open>
  The bytes a packer appends, read as a little-endian number, are the values in base
  \<open>2^bw\<close>, as long as the 64-bit accumulator holds the bits that are buffered and the
  next value: at most 7 bits are buffered when a value is added, so this is the case for
  every width up to 57. The unpacker then returns the values, whatever bytes follow
  the packed ones.
\<close>

lemma not_bit_nat_above: "(a :: nat) < 2 ^ n \<Longrightarrow> n \<le> m \<Longrightarrow> \<not> bit a m"
proof -
  assume a: "a < 2 ^ n" and m: "n \<le> m"
  have "(2 :: nat) ^ n \<le> 2 ^ m" using m by (rule power_increasing) simp
  with a have "a < 2 ^ m" by (rule less_le_trans)
  then have "a div 2 ^ m = 0" by (rule div_less)
  then show ?thesis by (simp add: bit_iff_odd)
qed

lemma or_push_bit_nat: "(a :: nat) < 2 ^ n \<Longrightarrow> a OR push_bit n b = a + 2 ^ n * b"
proof -
  assume a: "a < 2 ^ n"
  have "a + push_bit n b = a OR push_bit n b"
    by (rule disjunctive_add) (use not_bit_nat_above [OF a] in \<open>auto simp add: bit_push_bit_iff\<close>)
  then show ?thesis by (simp add: push_bit_eq_mult mult.commute)
qed

lemma unat_or_push_bit:
  fixes acc v :: u64
  assumes a: "unat acc < 2 ^ n" and v: "unat v < 2 ^ k" and nk: "n + k \<le> 64"
  shows "unat (acc OR push_bit n v) = unat acc + 2 ^ n * unat v"
proof -
  have "2 ^ n * unat v < 2 ^ n * 2 ^ k" using v by simp
  also have "\<dots> = (2 :: nat) ^ (n + k)" by (simp add: power_add)
  also have "\<dots> \<le> 2 ^ 64" using nk by (rule power_increasing) simp
  finally have lt: "push_bit n (unat v) < 2 ^ 64" by (simp add: push_bit_eq_mult mult.commute)
  have "unat (push_bit n v) = take_bit 64 (push_bit n (unat v))"
    by (simp add: unsigned_push_bit_eq)
  also have "\<dots> = push_bit n (unat v)" using lt by (rule take_bit_nat_eq_self)
  finally have "unat (acc OR push_bit n v) = unat acc OR push_bit n (unat v)"
    by (simp add: unsigned_or_eq)
  with or_push_bit_nat [OF a] show ?thesis by simp
qed

lemma unat_low_byte: "unat (ucast (acc AND 0xff :: u64) :: u8) = unat acc mod 256"
proof -
  have "(acc AND 0xff) = take_bit 8 acc"
    by (simp add: take_bit_eq_mask mask_eq_exp_minus_1)
  then have "unat (ucast (acc AND 0xff) :: u8) = unat (ucast (take_bit 8 acc :: u64) :: u8)" by simp
  also have "\<dots> = take_bit 8 (unat acc)"
    by (simp add: unsigned_ucast_eq unsigned_take_bit_eq)
  finally show ?thesis by (simp add: take_bit_eq_mod)
qed

lemma flush_value:
  "flush acc bits = (bs, acc', bits') \<Longrightarrow> unat acc < 2 ^ bits \<Longrightarrow>
     horner_sum unat 256 bs + 256 ^ length bs * unat acc' = unat acc \<and> unat acc' < 2 ^ bits'"
proof (induction acc bits arbitrary: bs acc' bits' rule: flush.induct)
  case (1 acc bits)
  show ?case
  proof (cases "8 \<le> bits")
    case True
    obtain bs1 acc1 bits1 where r: "flush (drop_bit 8 acc) (bits - 8) = (bs1, acc1, bits1)"
      by (cases "flush (drop_bit 8 acc) (bits - 8)") auto
    from True obtain m where m: "bits = m + 8"
      by (metis add.commute le_add_diff_inverse)
    have "unat (drop_bit 8 acc) = drop_bit 8 (unat acc)" by (rule unat_drop_bit_eq)
    also have "\<dots> = unat acc div 256" by (simp add: drop_bit_eq_div)
    finally have d: "unat (drop_bit 8 acc) = unat acc div 256" .
    have "unat acc < 2 ^ m * 256" using "1.prems"(2) m by (simp add: power_add)
    then have "unat acc div 256 < 2 ^ m" by (simp add: less_mult_imp_div_less)
    then have "unat (drop_bit 8 acc) < 2 ^ (bits - 8)" using d m by simp
    from "1.IH" [OF True r this]
    have ih: "horner_sum unat 256 bs1 + 256 ^ length bs1 * unat acc1 = unat acc div 256"
      and lt: "unat acc1 < 2 ^ bits1" using d by simp_all
    from "1.prems"(1) True r have e: "bs = ucast (acc AND 0xff) # bs1" "acc' = acc1" "bits' = bits1"
      by (simp_all add: flush.simps [of acc bits])
    have "horner_sum unat 256 bs + 256 ^ length bs * unat acc'
        = unat acc mod 256 + 256 * (horner_sum unat 256 bs1 + 256 ^ length bs1 * unat acc1)"
      unfolding e by (simp add: unat_low_byte algebra_simps)
    also have "\<dots> = unat acc" unfolding ih by simp
    finally show ?thesis using lt e by simp
  next
    case False
    with "1.prems" show ?thesis by (simp add: flush.simps [of acc bits])
  qed
qed


lemma and_msk_self:
  fixes x :: u64
  assumes "unat x < 2 ^ bw"
  shows "x AND (push_bit bw 1 - 1) = x"
proof -
  have "push_bit bw 1 - 1 = (mask bw :: u64)"
    by (simp add: mask_eq_exp_minus_1 push_bit_eq_mult)
  then have "x AND (push_bit bw 1 - 1) = take_bit bw x" by (simp add: take_bit_eq_mask)
  moreover have "unat (take_bit bw x) = unat x"
    using assms by (simp add: unsigned_take_bit_eq take_bit_nat_eq_self)
  ultimately show ?thesis by (simp add: word_unat_eq_iff)
qed

lemma unat_and_msk:
  fixes x :: u64
  shows "unat (x AND (push_bit bw 1 - 1)) = unat x mod 2 ^ bw"
proof -
  have "push_bit bw 1 - 1 = (mask bw :: u64)"
    by (simp add: mask_eq_exp_minus_1 push_bit_eq_mult)
  then have e: "x AND (push_bit bw 1 - 1) = take_bit bw x" by (simp add: take_bit_eq_mask)
  have "unat (take_bit bw x) = take_bit bw (unat x)" by (rule unsigned_take_bit_eq)
  also have "\<dots> = unat x mod 2 ^ bw" by (rule take_bit_eq_mod)
  finally show ?thesis unfolding e .
qed

lemma add_mult_less:
  fixes a b p q :: nat
  assumes "a < p" and "b < q"
  shows "a + p * b < p * q"
proof -
  have "p * Suc b \<le> p * q" using assms(2) by (intro mult_le_mono2) simp
  then show ?thesis using assms(1) by simp
qed

lemma pack_loop_value:
  assumes bw: "bw \<le> 57"
  shows "bits < 8 \<Longrightarrow> unat acc < 2 ^ bits \<Longrightarrow> \<forall>x\<in>set xs. x AND msk = x \<and> unat x < 2 ^ bw \<Longrightarrow>
     horner_sum unat 256 (pack_loop xs bw msk acc bits)
       = unat acc + 2 ^ bits * horner_sum unat (2 ^ bw) xs"
proof (induction xs arbitrary: acc bits)
  case Nil
  have "(2 :: nat) ^ bits \<le> 2 ^ 8" using Nil.prems(1) by (intro power_increasing) simp_all
  with Nil.prems(2) have "unat acc < 256" by simp
  then show ?case using Nil.prems(2) by (cases "bits = 0") (auto simp add: unat_low_byte)
next
  case (Cons x xs)
  from Cons.prems(3) have x: "x AND msk = x" "unat x < 2 ^ bw" by simp_all
  let ?acc1 = "acc OR push_bit bits x"
  obtain bs acc2 bits2 where f: "flush ?acc1 (bits + bw) = (bs, acc2, bits2)"
    by (cases "flush ?acc1 (bits + bw)") auto
  have a1: "unat ?acc1 = unat acc + 2 ^ bits * unat x"
    using Cons.prems(1,2) x(2) bw by (intro unat_or_push_bit [where k = bw]) simp_all
  have "unat ?acc1 < 2 ^ bits * 2 ^ bw"
    unfolding a1 using Cons.prems(2) x(2) by (rule add_mult_less)
  then have lt: "unat ?acc1 < 2 ^ (bits + bw)" by (simp add: power_add)
  from flush_value [OF f lt]
  have v: "horner_sum unat 256 bs + 256 ^ length bs * unat acc2 = unat ?acc1"
    and lt2: "unat acc2 < 2 ^ bits2" by simp_all
  from flush_count [OF f] have c: "length bs = (bits + bw) div 8" "bits2 = (bits + bw) mod 8"
    by simp_all
  then have b2: "bits2 < 8" by simp
  from Cons.prems(3) have rest: "\<forall>x\<in>set xs. x AND msk = x \<and> unat x < 2 ^ bw" by simp
  have e: "(256 :: nat) ^ length bs * 2 ^ bits2 = 2 ^ bits * 2 ^ bw"
  proof -
    have "(256 :: nat) ^ length bs * 2 ^ bits2 = 2 ^ (8 * length bs + bits2)"
      by (simp add: power_add power_mult)
    also have "8 * length bs + bits2 = bits + bw" unfolding c by simp
    finally show ?thesis by (simp add: power_add)
  qed
  have "horner_sum unat 256 (pack_loop (x # xs) bw msk acc bits)
      = horner_sum unat 256 bs + 256 ^ length bs * horner_sum unat 256 (pack_loop xs bw msk acc2 bits2)"
    using f x(1) by (simp add: Let_def horner_sum_append)
  also have "\<dots> = horner_sum unat 256 bs
      + 256 ^ length bs * (unat acc2 + 2 ^ bits2 * horner_sum unat (2 ^ bw) xs)"
    unfolding Cons.IH [OF b2 lt2 rest] ..
  also have "\<dots> = unat ?acc1 + (256 ^ length bs * 2 ^ bits2) * horner_sum unat (2 ^ bw) xs"
    unfolding v [symmetric] by (simp add: algebra_simps)
  also have "\<dots> = unat acc + 2 ^ bits * (unat x + 2 ^ bw * horner_sum unat (2 ^ bw) xs)"
    unfolding e a1 by (simp add: algebra_simps)
  finally show ?case by simp
qed

lemma refill_value:
  assumes bw: "bw \<le> 57"
  shows "bits < bw + 8 \<Longrightarrow> unat acc < 2 ^ bits \<Longrightarrow> bw \<le> bits + 8 * length src \<Longrightarrow>
     \<exists>acc' bits' src'. refill bw acc bits src = Some (acc', bits', src')
        \<and> bw \<le> bits' \<and> bits' < bw + 8 \<and> unat acc' < 2 ^ bits'
        \<and> bits' + 8 * length src' = bits + 8 * length src
        \<and> unat acc' + 2 ^ bits' * horner_sum unat 256 src'
            = unat acc + 2 ^ bits * horner_sum unat 256 src"
proof (induction src arbitrary: acc bits)
  case Nil
  then show ?case by simp
next
  case (Cons b src)
  show ?case
  proof (cases "bits < bw")
    case True
    let ?acc1 = "acc OR push_bit bits (ucast b)"
    have b8': "unat b < 2 ^ 8" using unsigned_less [of b] by simp
    then have "unat b < 2 ^ 64" by simp
    then have ub: "unat (ucast b :: u64) = unat b"
      by (simp add: unsigned_ucast_eq take_bit_nat_eq_self)
    have b8: "unat (ucast b :: u64) < 2 ^ 8" unfolding ub by (rule b8')
    have a1: "unat ?acc1 = unat acc + 2 ^ bits * unat b"
      using Cons.prems(2) b8 True bw unat_or_push_bit [of acc bits "ucast b" 8] ub by simp
    have "unat ?acc1 < 2 ^ bits * 2 ^ 8"
      unfolding a1 using Cons.prems(2) b8' by (rule add_mult_less)
    then have lt: "unat ?acc1 < 2 ^ (bits + 8)" by (simp add: power_add)
    have p1: "bits + 8 < bw + 8" using True by simp
    have p3: "bw \<le> (bits + 8) + 8 * length src" using Cons.prems(3) by simp
    from Cons.IH [OF p1 lt p3] obtain acc' bits' src' where
      r: "refill bw ?acc1 (bits + 8) src = Some (acc', bits', src')"
      and k: "bw \<le> bits'" "bits' < bw + 8" "unat acc' < 2 ^ bits'"
        "bits' + 8 * length src' = (bits + 8) + 8 * length src"
      and v: "unat acc' + 2 ^ bits' * horner_sum unat 256 src'
            = unat ?acc1 + 2 ^ (bits + 8) * horner_sum unat 256 src"
      by blast
    have "unat ?acc1 + 2 ^ (bits + 8) * horner_sum unat 256 src
        = unat acc + 2 ^ bits * horner_sum unat 256 (b # src)"
      unfolding a1 by (simp add: power_add algebra_simps)
    with r k v True show ?thesis by simp
  next
    case False
    with Cons.prems show ?thesis by simp
  qed
qed

lemma unpack_loop_value:
  assumes bw: "bw \<le> 57"
  shows "bits < 8 \<Longrightarrow> unat acc < 2 ^ bits \<Longrightarrow> \<forall>x\<in>set xs. unat x < 2 ^ bw \<Longrightarrow>
     length xs * bw \<le> bits + 8 * length src \<Longrightarrow>
     unat acc + 2 ^ bits * horner_sum unat 256 src
       = horner_sum unat (2 ^ bw) xs + 2 ^ (bw * length xs) * r \<Longrightarrow>
     unpack_loop (length xs) bw (push_bit bw 1 - 1) acc bits src = Some xs"
proof (induction xs arbitrary: acc bits src r)
  case Nil
  then show ?case by simp
next
  case (Cons x xs)
  from Cons.prems(3) have x: "unat x < 2 ^ bw" and rest: "\<forall>x\<in>set xs. unat x < 2 ^ bw"
    by simp_all
  have p1: "bits < bw + 8" using Cons.prems(1) by simp
  have p3: "bw \<le> bits + 8 * length src" using Cons.prems(4) by simp
  from refill_value [OF bw p1 Cons.prems(2) p3] obtain acc' bits' src' where
    rf: "refill bw acc bits src = Some (acc', bits', src')"
    and k: "bw \<le> bits'" "bits' < bw + 8" "unat acc' < 2 ^ bits'"
      "bits' + 8 * length src' = bits + 8 * length src"
    and v: "unat acc' + 2 ^ bits' * horner_sum unat 256 src'
          = unat acc + 2 ^ bits * horner_sum unat 256 src"
    by blast
  define R where "R = horner_sum unat (2 ^ bw) xs + 2 ^ (bw * length xs) * r"
  define V where "V = horner_sum unat 256 src'"
  obtain d where d: "bits' = bw + d" using k(1) by (metis le_add_diff_inverse)
  have t: "unat acc' + 2 ^ bw * (2 ^ d * V) = unat x + 2 ^ bw * R"
    using v Cons.prems(5) unfolding R_def V_def d
    by (simp add: power_add algebra_simps)
  have "(unat acc' + 2 ^ bw * (2 ^ d * V)) mod 2 ^ bw = unat acc' mod 2 ^ bw" by simp
  moreover have "(unat x + 2 ^ bw * R) mod 2 ^ bw = unat x" using x by simp
  ultimately have m: "unat acc' mod 2 ^ bw = unat x" using t by simp
  have "(unat acc' + 2 ^ bw * (2 ^ d * V)) div 2 ^ bw = unat acc' div 2 ^ bw + 2 ^ d * V"
    by simp
  moreover have "(unat x + 2 ^ bw * R) div 2 ^ bw = R" using x by simp
  ultimately have q: "unat acc' div 2 ^ bw + 2 ^ d * V = R" using t by simp
  have "unat (acc' AND (push_bit bw 1 - 1)) = unat x" unfolding unat_and_msk by (rule m)
  then have out: "acc' AND (push_bit bw 1 - 1) = x" by (simp only: word_unat_eq_iff)
  have "unat (drop_bit bw acc') = drop_bit bw (unat acc')" by (rule unat_drop_bit_eq)
  also have "\<dots> = unat acc' div 2 ^ bw" by (simp add: drop_bit_eq_div)
  finally have dr: "unat (drop_bit bw acc') = unat acc' div 2 ^ bw" .
  have "unat acc' < 2 ^ d * 2 ^ bw" using k(3) unfolding d by (simp add: power_add mult.commute)
  then have "unat acc' div 2 ^ bw < 2 ^ d" by (simp add: less_mult_imp_div_less)
  then have i2: "unat (drop_bit bw acc') < 2 ^ (bits' - bw)" unfolding dr d by simp
  have i1: "bits' - bw < 8" using k(2) d by simp
  have i4: "length xs * bw \<le> (bits' - bw) + 8 * length src'"
    using Cons.prems(4) k(4) d by simp
  have i5: "unat (drop_bit bw acc') + 2 ^ (bits' - bw) * horner_sum unat 256 src'
      = horner_sum unat (2 ^ bw) xs + 2 ^ (bw * length xs) * r"
    using q unfolding dr d R_def V_def by simp
  from Cons.IH [OF i1 i2 rest i4 i5] rf out show ?case by simp
qed

lemma horner_sum_zeros: "\<forall>x\<in>set xs. f x = (0 :: nat) \<Longrightarrow> horner_sum f a xs = 0"
  by (induction xs) simp_all

lemma packed_stream:
  fixes xs :: "u64 list"
  assumes bw: "bw \<le> 57" and xs: "\<forall>x\<in>set xs. x AND msk = x \<and> unat x < 2 ^ bw"
    and bs: "bs = (if bw = 0 \<or> xs = [] then [] else pack_loop xs bw msk 0 0)"
  shows "length xs * bw \<le> 8 * length (bs @ rest)
     \<and> (\<exists>r. horner_sum unat 256 (bs @ rest)
            = horner_sum unat (2 ^ bw) xs + 2 ^ (bw * length xs) * r)"
proof (cases "bw = 0 \<or> xs = []")
  case True
  then have "horner_sum unat (2 ^ bw) xs = 0"
  proof
    assume "bw = 0"
    with xs have "\<forall>x\<in>set xs. unat x = 0" by simp
    then show ?thesis by (rule horner_sum_zeros)
  qed simp
  moreover have "bw * length xs = 0" using True by auto
  ultimately show ?thesis using True bs by auto
next
  case False
  then have b: "bs = pack_loop xs bw msk 0 0" using bs by simp
  have l: "length bs = (length xs * bw + 7) div 8"
    unfolding b using length_pack_loop [of 0 xs bw msk 0] by simp
  then have le: "length xs * bw \<le> 8 * length bs" by simp
  then obtain d where d: "8 * length bs = bw * length xs + d"
    by (metis le_add_diff_inverse mult.commute)
  have v: "horner_sum unat 256 bs = horner_sum unat (2 ^ bw) xs"
    unfolding b using pack_loop_value [OF bw _ _ xs, of 0 0] by simp
  have "(256 :: nat) ^ length bs = 2 ^ (8 * length bs)" by (simp add: power_mult)
  also have "\<dots> = 2 ^ (bw * length xs) * 2 ^ d" unfolding d by (simp add: power_add)
  finally have "horner_sum unat 256 (bs @ rest)
      = horner_sum unat (2 ^ bw) xs + 2 ^ (bw * length xs) * (2 ^ d * horner_sum unat 256 rest)"
    by (simp add: horner_sum_append v)
  with le show ?thesis by auto
qed

lemma bitunpack_u64_bitpack_u64:
  assumes bw: "bw \<le> 57" and xs: "\<forall>x\<in>set xs. unat x < 2 ^ bw"
  shows "bitunpack_u64 (bitpack_u64 xs bw [] @ rest) (length xs) bw = Some xs"
proof (cases "bw = 0 \<or> xs = []")
  case True
  have "xs = replicate (length xs) 0"
  proof (cases "xs = []")
    case False
    with True xs have "\<forall>x\<in>set xs. unat x = 0" by simp
    then have "\<forall>x\<in>set xs. x = 0" by (simp add: unat_eq_0)
    then show ?thesis by (simp add: replicate_length_same)
  qed simp
  with True show ?thesis by (auto simp add: bitunpack_u64_def)
next
  case False
  then have m: "(if bw = 64 then - 1 else push_bit bw 1 - 1) = (push_bit bw 1 - 1 :: u64)"
    using bw by simp
  have xs': "\<forall>x\<in>set xs. x AND (push_bit bw 1 - 1) = x \<and> unat x < 2 ^ bw"
    using xs and_msk_self by blast
  from packed_stream [OF bw xs' refl, of rest] False obtain r where
    l: "length xs * bw \<le> 8 * length (pack_loop xs bw (push_bit bw 1 - 1) 0 0 @ rest)"
    and v: "horner_sum unat 256 (pack_loop xs bw (push_bit bw 1 - 1) 0 0 @ rest)
            = horner_sum unat (2 ^ bw) xs + 2 ^ (bw * length xs) * r"
    by auto
  have "unpack_loop (length xs) bw (push_bit bw 1 - 1) 0 0
          (pack_loop xs bw (push_bit bw 1 - 1) 0 0 @ rest) = Some xs"
    by (rule unpack_loop_value [OF bw _ _ xs, where r = r]) (use l v in simp_all)
  with False m bw show ?thesis by (simp add: bitunpack_u64_def bitpack_u64_def)
qed


lemma unat_ucast_u32_u64: "unat (ucast x :: u64) = unat x" for x :: u32
proof -
  have "unat x < 2 ^ 32" using unsigned_less [of x] by simp
  then have "unat x < 2 ^ 64" by simp
  then show ?thesis by (simp add: unsigned_ucast_eq take_bit_nat_eq_self)
qed

lemma ucast_u64_u32_id: "ucast (ucast x :: u64) = x" for x :: u32
  by (rule bit_word_eqI) (simp add: bit_ucast_iff)

lemma bitunpack_u32_bitpack_u32:
  assumes bw: "bw \<le> 32" and xs: "\<forall>x\<in>set xs. unat x < 2 ^ bw"
  shows "bitunpack_u32 (bitpack_u32 xs bw [] @ rest) (length xs) bw = Some xs"
proof -
  let ?ys = "map ucast xs :: u64 list"
  have m: "(if bw = 32 then 0xffffffff else push_bit bw 1 - 1) = (push_bit bw 1 - 1 :: u64)"
    by simp
  have bw': "bw \<le> 57" using bw by simp
  have "\<forall>y\<in>set ?ys. unat y < 2 ^ bw" using xs by (simp add: unat_ucast_u32_u64)
  then have ys: "\<forall>y\<in>set ?ys. y AND (push_bit bw 1 - 1) = y \<and> unat y < 2 ^ bw"
    using and_msk_self by blast
  define bs where "bs = (if bw = 0 \<or> ?ys = [] then [] else pack_loop ?ys bw (push_bit bw 1 - 1) 0 0)"
  from packed_stream [OF bw' ys bs_def, of rest] obtain r where
    l: "length ?ys * bw \<le> 8 * length (bs @ rest)"
    and v: "horner_sum unat 256 (bs @ rest)
            = horner_sum unat (2 ^ bw) ?ys + 2 ^ (bw * length ?ys) * r"
    by auto
  have q: "\<forall>y\<in>set ?ys. unat y < 2 ^ bw" using ys by simp
  have "unpack_loop (length ?ys) bw (push_bit bw 1 - 1) 0 0 (bs @ rest) = Some ?ys"
    by (rule unpack_loop_value [OF bw' _ _ q, where r = r]) (use l v in simp_all)
  moreover have "bitpack_u32 xs bw [] = bs"
    unfolding bs_def bitpack_u32_def m by simp
  ultimately show ?thesis
    unfolding bitunpack_u32_def m using bw by (simp add: comp_def ucast_u64_u32_id)
qed

subsection \<open>Flag bytes\<close>

lemma bit_and_1: "bit (x AND 1 :: u8) j \<longleftrightarrow> j = 0 \<and> bit x 0"
  by (auto simp add: bit_and_iff bit_1_iff)

lemma pack_bits_Suc:
  "pack_bits src (Suc m) = pack_bits src m OR push_bit m (src ! m AND 1)"
  by (simp add: pack_bits_def)

lemma bit_pack_bits:
  "m \<le> 8 \<Longrightarrow> bit (pack_bits src m) j \<longleftrightarrow> j < m \<and> bit (src ! j) 0"
proof (induction m)
  case 0
  then show ?case by (simp add: pack_bits_def)
next
  case (Suc m)
  then have m: "m < 8" by simp
  have "bit (push_bit m (src ! m AND 1)) j \<longleftrightarrow> j = m \<and> bit (src ! m) 0"
    unfolding bit_push_bit_iff bit_and_1 using m by auto
  with Suc show ?case
    by (auto simp add: pack_bits_Suc bit_or_iff less_Suc_eq)
qed

lemma unpack_bit: "k < m \<Longrightarrow> m \<le> 8 \<Longrightarrow> drop_bit k (pack_bits src m) AND 1 = src ! k AND 1"
  by (rule bit_word_eqI) (auto simp add: bit_and_1 bit_drop_bit_eq bit_pack_bits)

lemma unpack_bits:
  assumes "m \<le> 8" "m \<le> length src"
  shows "map (\<lambda>k. drop_bit k (pack_bits src m) AND 1) [0..<m] = map (\<lambda>x. x AND 1) (take m src)"
  using assms by (simp add: list_eq_iff_nth_eq unpack_bit)

lemma bitunpack_u8_bitpack_u8:
  "bitunpack_u8 (bitpack_u8_loop src @ rest) (length src) = Some (map (\<lambda>x. x AND 1) src)"
proof (induction src rule: bitpack_u8_loop.induct)
  case (1 src)
  show ?case
  proof (cases "8 \<le> length src")
    case True
    have "bitunpack_u8 (bitpack_u8_loop (drop 8 src) @ rest) (length src - 8)
            = Some (map (\<lambda>x. x AND 1) (drop 8 src))"
      using "1.IH" [OF True] by simp
    moreover have "map (\<lambda>k. drop_bit k (pack_bits src 8) AND 1) [0..<8] = map (\<lambda>x. x AND 1) (take 8 src)"
      using True by (rule unpack_bits [OF order_refl])
    moreover have "map (\<lambda>x. x AND 1) (take 8 src) @ map (\<lambda>x. x AND 1) (drop 8 src) = map (\<lambda>x. x AND 1) src"
      by (simp flip: map_append)
    ultimately show ?thesis
      using True
      by (simp add: bitpack_u8_loop.simps [of src] bitunpack_u8.simps [of _ "length src"])
  next
    case False
    show ?thesis
    proof (cases "src = []")
      case True
      then show ?thesis
        by (simp add: bitpack_u8_loop.simps [of src] bitunpack_u8.simps [of _ 0])
    next
      case nonempty: False
      have "map (\<lambda>k. drop_bit k (pack_bits src (length src)) AND 1) [0..<length src] = map (\<lambda>x. x AND 1) src"
        using False unpack_bits [of "length src" src] by simp
      then show ?thesis
        using False nonempty
        by (simp add: bitpack_u8_loop.simps [of src] bitunpack_u8.simps [of _ "length src"])
    qed
  qed
qed

lemma length_bitpack_u8_loop: "length (bitpack_u8_loop src) = (length src + 7) div 8"
proof (induction src rule: bitpack_u8_loop.induct)
  case (1 src)
  show ?case
  proof (cases "8 \<le> length src")
    case True
    then obtain m where m: "length src = m + 8"
      by (metis add.commute le_add_diff_inverse)
    from "1.IH" [OF True] True show ?thesis
      by (simp add: bitpack_u8_loop.simps [of src] m)
  next
    case False
    show ?thesis
    proof (cases "src = []")
      case True
      then show ?thesis by (simp add: bitpack_u8_loop.simps [of "[]"])
    next
      case nonempty: False
      then have "0 < length src" by simp
      with False have "(length src + 7) div 8 = 1" by arith
      with False nonempty show ?thesis by (simp add: bitpack_u8_loop.simps [of src])
    qed
  qed
qed

subsection \<open>Bit widths\<close>

lemma not_bit_above:
  fixes y :: u64
  assumes "y \<le> 0xffffffff" "32 \<le> k"
  shows "\<not> bit y k"
proof -
  from assms(1) have "unat y < 2 ^ 32" by (simp add: word_le_nat_alt)
  then have "take_bit 32 (unat y) = unat y" by (simp add: take_bit_nat_eq_self)
  then have "bit (unat y) k \<longleftrightarrow> bit (take_bit 32 (unat y)) k" by simp
  also have "\<dots> \<longleftrightarrow> False" using assms(2) by (simp add: bit_take_bit_iff)
  finally show ?thesis by (simp add: bit_unsigned_iff)
qed

lemma clzll_ge_32:
  assumes "y \<le> 0xffffffff"
  shows "32 \<le> clzll y"
  unfolding clzll_def
proof (rule length_takeWhile_less_P_nth)
  show "32 \<le> length (rev [0..<64])" by simp
  fix i :: nat assume "i < 32"
  then have "rev [0..<64] ! i = 63 - i" by (simp add: rev_nth)
  moreover have "\<not> bit y (63 - i)" using \<open>i < 32\<close> by (intro not_bit_above [OF assms]) simp
  ultimately show "\<not> bit y (rev [0..<64] ! i)" by simp
qed

lemma clzll_le_64: "clzll y \<le> 64"
  unfolding clzll_def using length_takeWhile_le [of _ "rev [0..<64]"] by simp

lemma ceil_log2_u64_le_32:
  assumes "m \<le> 0xffffffff"
  shows "unat (ucast (ceil_log2_u64 (m + 1)) :: u8) \<le> 32"
proof (cases "m + 1 \<le> 1")
  case True
  then show ?thesis by (simp add: ceil_log2_u64_def)
next
  case False
  let ?c = "clzll m"
  have c: "32 \<le> ?c" "?c \<le> 64" using clzll_ge_32 [OF assms] clzll_le_64 by simp_all
  have "ceil_log2_u64 (m + 1) = 64 - of_nat ?c" using False by (simp add: ceil_log2_u64_def)
  also have "\<dots> = of_nat (64 - ?c)" using c(2) by (simp add: of_nat_diff)
  finally have "unat (ceil_log2_u64 (m + 1)) = unat (of_nat (64 - ?c) :: u64)" by (rule arg_cong)
  also have "\<dots> = 64 - ?c" by (simp add: unat_of_nat)
  finally have "unat (ceil_log2_u64 (m + 1)) = 64 - ?c" .
  then have "unat (ucast (ceil_log2_u64 (m + 1)) :: u8) = take_bit 8 (64 - ?c)"
    by (simp add: unsigned_ucast_eq)
  also have "\<dots> = 64 - ?c" using c by (simp add: take_bit_nat_eq_self)
  finally show ?thesis using c by simp
qed

lemma foldl_max_le:
  fixes a :: u64
  assumes "a \<le> b" "\<And>x. x \<in> set xs \<Longrightarrow> x \<le> b"
  shows "foldl max a xs \<le> b"
  using assms by (induction xs arbitrary: a) simp_all

lemma clzll_bound: "unat y < 2 ^ (64 - clzll y)"
proof -
  let ?P = "\<lambda>i. \<not> bit y i"
  let ?c = "clzll y"
  have nb: "\<not> bit y k" if "64 - ?c \<le> k" "k < 64" for k
  proof -
    let ?i = "63 - k"
    have i: "?i < length (takeWhile ?P (rev [0..<64]))"
      using that clzll_le_64 [of y] by (simp add: clzll_def)
    then have "takeWhile ?P (rev [0..<64]) ! ?i \<in> set (takeWhile ?P (rev [0..<64]))"
      by (rule nth_mem)
    then have "?P (takeWhile ?P (rev [0..<64]) ! ?i)" by (rule set_takeWhileD [THEN conjunct2])
    moreover have "takeWhile ?P (rev [0..<64]) ! ?i = rev [0..<64] ! ?i"
      using i by (rule takeWhile_nth)
    moreover have "rev [0..<64] ! ?i = k" using that(2) by (simp add: rev_nth)
    ultimately show ?thesis by simp
  qed
  have "take_bit (64 - ?c) y = y"
  proof (rule bit_word_eqI)
    fix n assume "n < LENGTH(64)"
    then have n: "n < 64" by simp
    show "bit (take_bit (64 - ?c) y) n \<longleftrightarrow> bit y n"
    proof (cases "n < 64 - ?c")
      case True
      then show ?thesis by (simp add: bit_take_bit_iff)
    next
      case False
      then have "\<not> bit y n" using n by (intro nb) simp_all
      with False show ?thesis by (simp add: bit_take_bit_iff)
    qed
  qed
  then have "unat y = unat (take_bit (64 - ?c) y)" by simp
  also have "\<dots> = take_bit (64 - ?c) (unat y)" by (rule unsigned_take_bit_eq)
  also have "\<dots> < 2 ^ (64 - ?c)" by (rule take_bit_nat_less_exp)
  finally show ?thesis .
qed

lemma ceil_log2_u64_bound:
  assumes "m \<le> 0xffffffff"
  shows "unat m < 2 ^ unat (ucast (ceil_log2_u64 (m + 1)) :: u8)"
proof (cases "m + 1 \<le> 1")
  case True
  from assms have "unat m < 2 ^ 32" by (simp add: word_le_nat_alt)
  then have "unat (m + 1) = unat m + 1" by (simp add: unat_add_lem [THEN iffD1])
  moreover from True have "unat (m + 1) \<le> 1" by (simp add: word_le_nat_alt)
  ultimately have "unat m = 0" by simp
  with True show ?thesis by (simp add: ceil_log2_u64_def)
next
  case False
  let ?c = "clzll m"
  have c: "32 \<le> ?c" "?c \<le> 64" using clzll_ge_32 [OF assms] clzll_le_64 by simp_all
  have "ceil_log2_u64 (m + 1) = 64 - of_nat ?c" using False by (simp add: ceil_log2_u64_def)
  also have "\<dots> = of_nat (64 - ?c)" using c(2) by (simp add: of_nat_diff)
  finally have "unat (ceil_log2_u64 (m + 1)) = unat (of_nat (64 - ?c) :: u64)" by (rule arg_cong)
  also have "\<dots> = 64 - ?c" by (simp add: unat_of_nat)
  finally have "unat (ceil_log2_u64 (m + 1)) = 64 - ?c" .
  then have "unat (ucast (ceil_log2_u64 (m + 1)) :: u8) = take_bit 8 (64 - ?c)"
    by (simp add: unsigned_ucast_eq)
  also have "\<dots> = 64 - ?c" using c by (simp add: take_bit_nat_eq_self)
  finally show ?thesis using clzll_bound [of m] by simp
qed

lemma foldl_max_ge_init: "a \<le> foldl max a xs" for a :: u64
proof (induction xs arbitrary: a)
  case (Cons y ys)
  have "a \<le> max a y" by simp
  also have "\<dots> \<le> foldl max (max a y) ys" by (rule Cons.IH)
  finally show ?case by simp
qed simp

lemma foldl_max_ge: "x \<in> set xs \<Longrightarrow> x \<le> foldl max a xs" for a :: u64
proof (induction xs arbitrary: a)
  case (Cons y ys)
  show ?case
  proof (cases "x = y")
    case True
    have "x \<le> max a y" using True by simp
    also have "\<dots> \<le> foldl max (max a y) ys" by (rule foldl_max_ge_init)
    finally show ?thesis by simp
  next
    case False
    with Cons.prems have "x \<in> set ys" by simp
    from Cons.IH [OF this] show ?thesis by simp
  qed
qed simp

subsection \<open>Rebuilding the rows\<close>

lemma length_resize: "length (resize z xs n) = n"
  by (simp add: resize_def)

lemma decode_rows_ok:
  assumes "length us = n" "length zs = n" "length ss = n" "length ts = n" "length rs = n"
    and "length szs = n" and "p_sz = concat (map (le_bytes 4) szs) @ rest"
  shows "\<exists>rs'. decode_rows hdr us zs ss ts p_sz rs = Inr rs' \<and> length rs' = n
           \<and> map r_side rs' = ss
           \<and> map r_type rs' = map (\<lambda>t. if t = 1 then CHR ''T'' else CHR ''L'') ts
           \<and> map r_size rs' = szs
           \<and> map r_ts_ts rs' = map (\<lambda>u. base_ts hdr + u * ucast (ts_scale_ns hdr)) us
           \<and> map r_price rs' = map r_price rs
           \<and> map r_ts_ns rs' = map r_ts_ns rs"
  using assms
proof (induction n arbitrary: us zs ss ts rs szs p_sz)
  case 0
  then show ?case by simp
next
  case (Suc n)
  from Suc.prems obtain u us' z zs' s ss' t ts' r rs' sz szs' where
    eq: "us = u # us'" "zs = z # zs'" "ss = s # ss'" "ts = t # ts'" "rs = r # rs'" "szs = sz # szs'"
    and len: "length us' = n" "length zs' = n" "length ss' = n" "length ts' = n" "length rs' = n"
      "length szs' = n"
    by (auto simp add: length_Suc_conv)
  have p: "\<not> length p_sz < 4" "take 4 p_sz = le_bytes 4 sz"
    "drop 4 p_sz = concat (map (le_bytes 4) szs') @ rest"
    by (simp_all add: Suc.prems(7) eq)
  from Suc.IH [OF len p(3)] obtain out where
    out: "decode_rows hdr us' zs' ss' ts' (drop 4 p_sz) rs' = Inr out" "length out = n"
      "map r_side out = ss'" "map r_type out = map (\<lambda>t. if t = 1 then CHR ''T'' else CHR ''L'') ts'"
      "map r_size out = szs'"
      "map r_ts_ts out = map (\<lambda>u. base_ts hdr + u * ucast (ts_scale_ns hdr)) us'"
      "map r_price out = map r_price rs'" "map r_ts_ns out = map r_ts_ns rs'"
    by blast
  show ?case
    unfolding eq
    using price_check_dead [of "base_px hdr + zigzag_dec32 z"] p(1,2) out
    by (simp add: Let_def le_word_le_bytes)
qed

subsection \<open>The layout of an encoded block\<close>

lemma byte_count_bound:
  fixes n bw :: nat
  assumes "bw \<le> 32"
  shows "(n * bw + 7) div 8 \<le> 4 * n" and "n * bw \<le> 8 * ((n * bw + 7) div 8)"
proof -
  have "n * bw \<le> n * 32" using assms by simp
  then have "(n * bw + 7) div 8 \<le> (n * 32 + 7) div 8" by (intro div_le_mono) simp
  also have "\<dots> = 4 * n" by arith
  finally show "(n * bw + 7) div 8 \<le> 4 * n" .
  show "n * bw \<le> 8 * ((n * bw + 7) div 8)" by arith
qed

lemma encode_block_layout:
  fixes rows :: "Row list"
  assumes ne: "rows \<noteq> []" and n: "length rows < 2 ^ 28"
  obtains hdr TS PX where
    "encode_block rows [] = header_bytes hdr @ TS @ PX
        @ concat (map (\<lambda>r. le_bytes 4 (r_size r)) rows)
        @ bitpack_u8_loop (map r_side rows)
        @ bitpack_u8_loop (map (\<lambda>r. if r_type r = CHR ''T'' then 1 else 0) rows)"
    and "length (magic hdr) = 8" and "n_rows hdr = of_nat (length rows)"
    and "unat (ts_bw hdr) \<le> 32" and "unat (px_bw hdr) \<le> 32"
    and "length TS = (length rows * unat (ts_bw hdr) + 7) div 8"
    and "length PX = (length rows * unat (px_bw hdr) + 7) div 8"
    and "off_ts hdr = 76" and "len_px hdr = of_nat (length PX)"
    and "off_sz hdr = of_nat (76 + length TS + length PX)"
    and "off_side hdr = of_nat (76 + length TS + length PX + 4 * length rows)"
    and "off_type hdr = of_nat (76 + length TS + length PX + 4 * length rows
                                  + length (bitpack_u8_loop (map r_side rows)))"
    and "base_ts hdr = r_ts_ns (hd rows)" and "ts_scale_ns hdr = 1000000"
    and "TS = bitpack_u64
                (map (\<lambda>r. ucast (ucast ((r_ts_ns r - r_ts_ns (hd rows)) div 1000000) :: u32)) rows)
                (unat (ts_bw hdr)) []"
    and "\<forall>x\<in>set (map (\<lambda>r. ucast (ucast ((r_ts_ns r - r_ts_ns (hd rows)) div 1000000) :: u32) :: u64) rows).
           unat x < 2 ^ unat (ts_bw hdr)"
proof -
  define base_ts where "base_ts = r_ts_ns (hd rows)"
  define base_px where "base_px = r_price (hd rows)"
  define ts_delta where
    "ts_delta = map (\<lambda>r. ucast (ucast ((r_ts_ns r - base_ts) div ucast (1000000 :: u32)) :: u32) :: u64) rows"
  define zz where "zz = map (\<lambda>r. zigzag_enc32 (r_price r - base_px)) rows"
  define bw_ts where "bw_ts = (ucast (ceil_log2_u64 (foldl max 0 ts_delta + 1)) :: u8)"
  define bw_px where "bw_px = (ucast (ceil_log2_u64 (foldl max 0 (map ucast zz :: u64 list) + 1)) :: u8)"
  define TS where "TS = bitpack_u64 ts_delta (unat bw_ts) []"
  define PX where "PX = bitpack_u32 zz (unat bw_px) []"
  define SZ where "SZ = concat (map (\<lambda>r. le_bytes 4 (r_size r)) rows)"
  define SD where "SD = bitpack_u8_loop (map r_side rows)"
  define TY where "TY = bitpack_u8_loop (map (\<lambda>r. if r_type r = CHR ''T'' then 1 else 0 :: u8) rows)"
  define out1 where "out1 = replicate 76 (0 :: u8)"
  define hdr where "hdr = \<lparr>magic = replicate 8 0, version = 1, flags = 0, n_rows = of_nat (length rows),
       base_ts = base_ts, base_px = base_px, ts_scale_ns = 1000000,
       ts_bw = bw_ts, px_bw = bw_px, reserved0 = 0,
       off_ts = 76, len_ts = of_nat (length TS),
       off_px = 76 + of_nat (length TS), len_px = of_nat (length PX),
       off_sz = 76 + of_nat (length TS) + of_nat (length PX), len_sz = of_nat (length rows) * 4,
       off_side = 76 + of_nat (length TS) + of_nat (length PX) + of_nat (length rows) * 4,
       len_side = of_nat (length SD),
       off_type = 76 + of_nat (length TS) + of_nat (length PX) + of_nat (length rows) * 4
                    + of_nat (length SD),
       len_type = of_nat (length TY)\<rparr>"
  have o2: "\<And>v bw k. bitpack_u64 v bw (replicate k 0) = replicate k 0 @ bitpack_u64 v bw []"
    by (rule bitpack_u64_append)
  have o3: "\<And>v bw xs ys. bitpack_u32 v bw (xs @ ys) = (xs @ ys) @ bitpack_u32 v bw []"
    by (rule bitpack_u32_append)
  have enc: "encode_block rows [] = header_bytes hdr @ TS @ PX @ SZ @ SD @ TY"
    using ne
    by (simp add: encode_block_def Let_def sizeof_BlockHeader_def resize_def o2 o3 bitpack_u8_def
        hdr_def TS_def PX_def SZ_def SD_def TY_def bw_ts_def bw_px_def ts_delta_def zz_def
        base_ts_def base_px_def)
  have b_ts: "unat bw_ts \<le> 32"
    unfolding bw_ts_def
    by (intro ceil_log2_u64_le_32 foldl_max_le) (auto simp add: ts_delta_def ucast_u32_le)
  have b_px: "unat bw_px \<le> 32"
    unfolding bw_px_def
    by (intro ceil_log2_u64_le_32 foldl_max_le) (auto simp add: ucast_u32_le)
  have lt_ts: "\<forall>x\<in>set ts_delta. unat x < 2 ^ unat bw_ts"
  proof
    fix x assume "x \<in> set ts_delta"
    then have "x \<le> foldl max 0 ts_delta" by (rule foldl_max_ge)
    then have "unat x \<le> unat (foldl max 0 ts_delta)" by (simp add: word_le_nat_alt)
    moreover have "foldl max 0 ts_delta \<le> 0xffffffff"
      by (intro foldl_max_le) (auto simp add: ts_delta_def ucast_u32_le)
    then have "unat (foldl max 0 ts_delta) < 2 ^ unat bw_ts"
      unfolding bw_ts_def by (rule ceil_log2_u64_bound)
    ultimately show "unat x < 2 ^ unat bw_ts" by simp
  qed
  have l_ts: "length TS = (length rows * unat bw_ts + 7) div 8"
    by (simp add: TS_def length_bitpack_u64 ts_delta_def)
  have l_px: "length PX = (length rows * unat bw_px + 7) div 8"
    by (simp add: PX_def length_bitpack_u32 zz_def)
  show thesis
  proof (rule that [of hdr TS PX])
    show "encode_block rows [] = header_bytes hdr @ TS @ PX
        @ concat (map (\<lambda>r. le_bytes 4 (r_size r)) rows)
        @ bitpack_u8_loop (map r_side rows)
        @ bitpack_u8_loop (map (\<lambda>r. if r_type r = CHR ''T'' then 1 else 0) rows)"
      using enc by (simp add: SZ_def SD_def TY_def)
    show "BlockHeader.base_ts hdr = r_ts_ns (hd rows)" by (simp add: hdr_def base_ts_def)
    show "TS = bitpack_u64
                (map (\<lambda>r. ucast (ucast ((r_ts_ns r - r_ts_ns (hd rows)) div 1000000) :: u32)) rows)
                (unat (ts_bw hdr)) []"
      by (simp add: hdr_def TS_def ts_delta_def base_ts_def)
    show "\<forall>x\<in>set (map (\<lambda>r. ucast (ucast ((r_ts_ns r - r_ts_ns (hd rows)) div 1000000) :: u32) :: u64) rows).
           unat x < 2 ^ unat (ts_bw hdr)"
      using lt_ts by (simp add: hdr_def ts_delta_def base_ts_def)
  qed (simp_all add: hdr_def b_ts b_px l_ts l_px SD_def)
qed

lemma unat_of_nat_u32: "k < 4294967296 \<Longrightarrow> unat (of_nat k :: u32) = k"
  by (simp add: unat_of_nat)


lemma resize_Nil: "resize z [] n = replicate n z"
  by (simp add: resize_def)

text \<open>
  What \<open>decode_block\<close> returns for a block that \<open>encode_block\<close> wrote: the rows of \<open>rows_out\<close>
  (resized to the number of rows) with \<open>size\<close>, \<open>side\<close>, \<open>type\<close> and \<open>ts_ts\<close> assigned. The
  size is the size of the input row; \<open>ts_ts\<close> is the timestamp of the first row plus
  \<open>ts_scale_ns\<close> times the 32-bit quotient that \<open>encode_block\<close> stored for the row; \<open>price\<close>
  and \<open>ts_ns\<close> are what \<open>rows_out\<close> held, zero in a new row.
\<close>

lemma decode_encode_block:
  fixes rows :: "Row list"
  assumes ne: "rows \<noteq> []" and n: "length rows < 2 ^ 28"
    and cm: "check_magic (read_header (encode_block rows []))"
  shows "\<exists>consumed rows'.
           decode_block check_magic (encode_block rows []) rows_out = Inr (consumed, rows')
           \<and> length rows' = length rows
           \<and> map r_side rows' = map (\<lambda>r. r_side r AND 1) rows
           \<and> map r_type rows' = map (\<lambda>r. if r_type r = CHR ''T'' then CHR ''T'' else CHR ''L'') rows
           \<and> map r_size rows' = map r_size rows
           \<and> map r_ts_ts rows'
               = map (\<lambda>r. r_ts_ns (hd rows)
                          + ucast (ucast ((r_ts_ns r - r_ts_ns (hd rows)) div 1000000) :: u32) * 1000000) rows
           \<and> map r_price rows' = map r_price (resize zero_Row rows_out (length rows))
           \<and> map r_ts_ns rows' = map r_ts_ns (resize zero_Row rows_out (length rows))"
proof -
  let ?D = "map (\<lambda>r. ucast (ucast ((r_ts_ns r - r_ts_ns (hd rows)) div 1000000) :: u32) :: u64) rows"
  let ?n = "length rows"
  let ?SZ = "concat (map (\<lambda>r. le_bytes 4 (r_size r)) rows)"
  let ?SD = "bitpack_u8_loop (map r_side rows)"
  let ?TY = "bitpack_u8_loop (map (\<lambda>r. if r_type r = CHR ''T'' then 1 else 0 :: u8) rows)"
  let ?blk = "encode_block rows []"
  from encode_block_layout [OF ne n] obtain hdr TS PX where
    blk: "?blk = header_bytes hdr @ TS @ PX @ ?SZ @ ?SD @ ?TY"
    and mg: "length (magic hdr) = 8" and nr: "n_rows hdr = of_nat ?n"
    and bts: "unat (ts_bw hdr) \<le> 32" and bpx: "unat (px_bw hdr) \<le> 32"
    and lts: "length TS = (?n * unat (ts_bw hdr) + 7) div 8"
    and lpx: "length PX = (?n * unat (px_bw hdr) + 7) div 8"
    and ots: "off_ts hdr = 76" and lenpx: "len_px hdr = of_nat (length PX)"
    and osz: "off_sz hdr = of_nat (76 + length TS + length PX)"
    and oside: "off_side hdr = of_nat (76 + length TS + length PX + 4 * ?n)"
    and otype: "off_type hdr = of_nat (76 + length TS + length PX + 4 * ?n + length ?SD)"
    and bt: "base_ts hdr = r_ts_ns (hd rows)" and sc: "ts_scale_ns hdr = 1000000"
    and tsdef: "TS = bitpack_u64 ?D (unat (ts_bw hdr)) []"
    and tslt: "\<forall>x\<in>set ?D. unat x < 2 ^ unat (ts_bw hdr)"
    by blast
  have n0: "0 < ?n" using ne by simp
  have n': "?n < 268435456" using n by simp
  have lts4: "length TS \<le> 4 * ?n" and ts_fit: "?n * unat (ts_bw hdr) \<le> 8 * length TS"
    unfolding lts using byte_count_bound [OF bts, of ?n] by simp_all
  have lpx4: "length PX \<le> 4 * ?n" and px_fit: "?n * unat (px_bw hdr) \<le> 8 * length PX"
    unfolding lpx using byte_count_bound [OF bpx, of ?n] by simp_all
  have lsz: "length ?SZ = 4 * ?n"
    by (simp add: length_concat comp_def sum_list_triv)
  have lsd: "length ?SD \<le> ?n"
    using n0 by (simp add: length_bitpack_u8_loop)
  have lhb: "length (header_bytes hdr) = 76"
    by (simp add: length_header_bytes sizeof_BlockHeader_def)
  \<comment> \<open>the header is read back\<close>
  have rh: "read_header ?blk = hdr"
    unfolding blk by (rule read_header_header_bytes [OF mg])
  have big: "\<not> length ?blk < sizeof_BlockHeader"
    by (simp add: blk lhb sizeof_BlockHeader_def)
  have nr0: "n_rows hdr \<noteq> 0" and unr: "unat (n_rows hdr) = ?n"
  proof -
    show "unat (n_rows hdr) = ?n"
      unfolding nr by (rule unat_of_nat_u32) (use n' in linarith)
    with n0 show "n_rows hdr \<noteq> 0" by auto
  qed
  \<comment> \<open>the offsets of the header, as numbers\<close>
  have u_ts: "unat (off_ts hdr) = 76" by (simp add: ots)
  have u_lpx: "unat (len_px hdr) = length PX"
    unfolding lenpx by (rule unat_of_nat_u32) (use lpx4 n' in linarith)
  have u_sz: "unat (off_sz hdr) = 76 + length TS + length PX"
    unfolding osz by (rule unat_of_nat_u32) (use lts4 lpx4 n' in linarith)
  have u_side: "unat (off_side hdr) = 76 + length TS + length PX + 4 * ?n"
    unfolding oside by (rule unat_of_nat_u32) (use lts4 lpx4 n' in linarith)
  have u_type: "unat (off_type hdr) = 76 + length TS + length PX + 4 * ?n + length ?SD"
    unfolding otype by (rule unat_of_nat_u32) (use lts4 lpx4 lsd n' in linarith)
  \<comment> \<open>the columns are found at their offsets\<close>
  have d_ts: "drop (unat (off_ts hdr)) ?blk = TS @ PX @ ?SZ @ ?SD @ ?TY"
    by (simp add: u_ts blk lhb)
  have d_sz: "drop (unat (off_sz hdr)) ?blk = ?SZ @ ?SD @ ?TY"
    by (simp add: u_sz blk lhb)
  have d_side: "drop (unat (off_side hdr)) ?blk = ?SD @ ?TY"
    by (simp add: u_side blk lhb lsz)
  have d_type: "drop (unat (off_type hdr)) ?blk = ?TY @ []"
    by (simp add: u_type blk lhb lsz)
  have d_px: "?n * unat (px_bw hdr) \<le> 8 * length (drop (unat (len_px hdr)) ?blk)"
  proof -
    have "?n * unat (px_bw hdr) \<le> ?n * 32" using bpx by simp
    also have "\<dots> \<le> 8 * (76 + length TS + length ?SZ + length ?SD + length ?TY)"
      by (simp add: lsz)
    also have "\<dots> = 8 * length (drop (unat (len_px hdr)) ?blk)"
      by (simp add: u_lpx blk lhb)
    finally show ?thesis .
  qed
  \<comment> \<open>the four unpackers succeed\<close>
  define tsd where "tsd = ?D"
  have tsd:
    "(if ts_bw hdr = 0 then Some (replicate ?n 0)
      else bitunpack_u64 (drop (unat (off_ts hdr)) ?blk) ?n (unat (ts_bw hdr))) = Some tsd"
    "length tsd = ?n"
  proof -
    have "unat (ts_bw hdr) \<le> 57" using bts by simp
    from bitunpack_u64_bitpack_u64 [OF this tslt, of "PX @ ?SZ @ ?SD @ ?TY"]
    have u: "bitunpack_u64 (drop (unat (off_ts hdr)) ?blk) ?n (unat (ts_bw hdr)) = Some tsd"
      unfolding d_ts tsdef tsd_def by simp
    then have "ts_bw hdr = 0 \<Longrightarrow> Some (replicate ?n 0) = Some tsd"
      by (simp add: bitunpack_u64_def)
    with u show "(if ts_bw hdr = 0 then Some (replicate ?n 0)
      else bitunpack_u64 (drop (unat (off_ts hdr)) ?blk) ?n (unat (ts_bw hdr))) = Some tsd"
      by simp
    show "length tsd = ?n" by (simp add: tsd_def)
  qed
  obtain pxd where pxd:
    "(if px_bw hdr = 0 then Some (replicate ?n 0)
      else bitunpack_u32 (drop (unat (len_px hdr)) ?blk) ?n (unat (px_bw hdr))) = Some pxd"
    "length pxd = ?n"
  proof (cases "px_bw hdr = 0")
    case True
    then show ?thesis using that [of "replicate ?n 0"] by simp
  next
    case False
    have "unat (px_bw hdr) < 64" using bpx by simp
    from bitunpack_u32_enough [OF this d_px] False that show ?thesis by auto
  qed
  have side: "bitunpack_u8 (drop (unat (off_side hdr)) ?blk) ?n = Some (map (\<lambda>x. x AND 1) (map r_side rows))"
    unfolding d_side using bitunpack_u8_bitpack_u8 [of "map r_side rows" ?TY] by simp
  have type: "bitunpack_u8 (drop (unat (off_type hdr)) ?blk) ?n
      = Some (map (\<lambda>x. x AND 1) (map (\<lambda>r. if r_type r = CHR ''T'' then 1 else 0 :: u8) rows))"
    unfolding d_type
    using bitunpack_u8_bitpack_u8 [of "map (\<lambda>r. if r_type r = CHR ''T'' then 1 else 0 :: u8) rows" "[]"]
    by simp
  \<comment> \<open>the rows are rebuilt\<close>
  have "drop (unat (off_sz hdr)) ?blk = concat (map (le_bytes 4) (map r_size rows)) @ ?SD @ ?TY"
    by (simp add: d_sz comp_def)
  from decode_rows_ok [OF tsd(2) pxd(2) _ _ length_resize _ this,
      of "map (\<lambda>x. x AND 1) (map r_side rows)"
         "map (\<lambda>x. x AND 1) (map (\<lambda>r. if r_type r = CHR ''T'' then 1 else 0 :: u8) rows)"
         hdr zero_Row rows_out]
  obtain rows2 where rows2:
    "decode_rows hdr tsd pxd (map (\<lambda>x. x AND 1) (map r_side rows))
       (map (\<lambda>x. x AND 1) (map (\<lambda>r. if r_type r = CHR ''T'' then 1 else 0 :: u8) rows))
       (drop (unat (off_sz hdr)) ?blk) (resize zero_Row rows_out ?n) = Inr rows2"
    "length rows2 = ?n"
    "map r_side rows2 = map (\<lambda>x. x AND 1) (map r_side rows)"
    "map r_type rows2 = map (\<lambda>t. if t = 1 then CHR ''T'' else CHR ''L'')
        (map (\<lambda>x. x AND 1) (map (\<lambda>r. if r_type r = CHR ''T'' then 1 else 0 :: u8) rows))"
    "map r_size rows2 = map r_size rows"
    "map r_price rows2 = map r_price (resize zero_Row rows_out ?n)"
    "map r_ts_ns rows2 = map r_ts_ns (resize zero_Row rows_out ?n)"
    "map r_ts_ts rows2 = map (\<lambda>u. base_ts hdr + u * ucast (ts_scale_ns hdr)) tsd"
    by auto
  have dec: "\<exists>consumed. decode_block check_magic ?blk rows_out = Inr (consumed, rows2)"
    using cm big nr0 tsd(1) pxd(1) side type rows2(1)
    by (simp add: decode_block_def Let_def rh unr)
  have s: "map r_side rows2 = map (\<lambda>r. r_side r AND 1) rows"
    by (simp add: rows2(3) comp_def)
  have t: "map r_type rows2 = map (\<lambda>r. if r_type r = CHR ''T'' then CHR ''T'' else CHR ''L'') rows"
    by (simp add: rows2(4) comp_def)
  have q: "map r_ts_ts rows2
      = map (\<lambda>r. r_ts_ns (hd rows)
                 + ucast (ucast ((r_ts_ns r - r_ts_ns (hd rows)) div 1000000) :: u32) * 1000000) rows"
    unfolding rows2(8) tsd_def bt sc by (simp add: comp_def)
  from dec rows2(2) s t rows2(5) q rows2(6,7) show ?thesis by blast
qed




text \<open>
  Decoded into an empty vector, no row of an encoded block gets its price or \<open>ts_ns\<close> back:
  both are zero, and the quantised timestamp is in \<open>ts_ts\<close>.
\<close>

lemma decode_encode_block_price_zero:
  fixes rows :: "Row list"
  assumes ne: "rows \<noteq> []" and n: "length rows < 2 ^ 28"
    and cm: "check_magic (read_header (encode_block rows []))"
  shows "\<exists>consumed rows'.
           decode_block check_magic (encode_block rows []) [] = Inr (consumed, rows')
           \<and> map r_price rows' = replicate (length rows) 0
           \<and> map r_ts_ns rows' = replicate (length rows) 0
           \<and> map r_ts_ts rows'
               = map (\<lambda>r. r_ts_ns (hd rows)
                          + ucast (ucast ((r_ts_ns r - r_ts_ns (hd rows)) div 1000000) :: u32) * 1000000) rows
           \<and> map r_size rows' = map r_size rows"
  using decode_encode_block [where check_magic = check_magic and rows_out = "[]", OF ne n cm]
  by (auto simp add: resize_Nil zero_Row_def)

section \<open>Properties of the zigzag coding\<close>

lemma bit_neg_and_1: "bit (- (v AND 1) :: u32) n \<longleftrightarrow> n < 32 \<and> bit v 0"
proof (cases "bit v 0")
  case True
  then have "v AND 1 = 1" by (simp add: and_one_eq mod2_eq_if bit_0)
  then show ?thesis using True by (simp add: bit_simps)
next
  case False
  then have "v AND 1 = 0" by (simp add: and_one_eq mod2_eq_if bit_0)
  then show ?thesis using False by simp
qed

lemma bit_zigzag_enc32:
  "bit (zigzag_enc32 x) n \<longleftrightarrow> n < 32 \<and> ((1 \<le> n \<and> bit x (n - 1)) \<noteq> bit x 31)"
proof -
  have p: "bit (push_bit 1 x) n \<longleftrightarrow> n < 32 \<and> 1 \<le> n \<and> bit x (n - 1)"
    using bit_push_bit_iff [of 1 x n] by (auto dest: bit_imp_le_length)
  have s: "bit (signed_drop_bit 31 x) n \<longleftrightarrow> n < 32 \<and> bit x 31"
    using bit_signed_drop_bit_iff [of 31 x n] by (cases "n = 0") (auto dest: bit_imp_le_length)
  show ?thesis
    unfolding zigzag_enc32_def bit_xor_iff p s by auto
qed

lemma bit_zigzag_dec32:
  "bit (zigzag_dec32 v) n \<longleftrightarrow> n < 32 \<and> (bit v (n + 1) \<noteq> bit v 0)"
  unfolding zigzag_dec32_def
  by (auto simp add: bit_xor_iff bit_neg_and_1 bit_drop_bit_eq dest: bit_imp_le_length)

text \<open>
  Claim C8. Zigzag round trip: decoding the zigzag code of any 32-bit signed integer
  gives the integer back.
\<close>

theorem zigzag_roundtrip: "zigzag_dec32 (zigzag_enc32 x) = x"
proof (rule bit_word_eqI)
  fix n assume "n < LENGTH(32)"
  then have n: "n < 32" by simp
  show "bit (zigzag_dec32 (zigzag_enc32 x)) n \<longleftrightarrow> bit x n"
  proof (cases "n = 31")
    case True
    then show ?thesis by (simp add: bit_zigzag_dec32 bit_zigzag_enc32)
  next
    case False
    with n have "n < 31" by simp
    then show ?thesis by (auto simp add: bit_zigzag_dec32 bit_zigzag_enc32)
  qed
qed

end
